theory Spec2Isabelle
  imports Complex_Main "HOL-Library.Log_Nat"
begin

section \<open>The batch accumulator: createBatchInserter\<close>

text \<open>
  \<open>createBatchInserter(batchSize, insertFn)\<close> returns a closure pair over the private
  array \<open>entryBuffer\<close>. The state is that array, passed in and returned; the calls of
  \<open>insertFn\<close> a method makes are returned in the order they are made, each with the
  contents it was given. The caller awaits every call, so the calls are sequential.

  \<open>push\<close> appends the entries (one \<open>Array.push\<close> for a single entry, a
  \<open>forEach\<close> of them otherwise), then tests the buffer length against the batch size, in
  the order of the source: equal, greater, else nothing. Above the batch size it calls
  \<open>insertFn\<close> for every batch that \<open>batchIterate(entryBuffer, batchSize)\<close> yields and
  then empties the buffer. The helper \<open>batchIterate\<close> is imported from ../helpers, a file
  outside the ones covered here: it is a parameter of \<open>push\<close>, and what a statement needs
  of it is a hypothesis of that statement.
\<close>

definition push ::
  "('a list \<Rightarrow> nat \<Rightarrow> 'a list list) \<Rightarrow> nat \<Rightarrow> 'a list \<Rightarrow> 'a list \<Rightarrow> 'a list list \<times> 'a list" where
  "push batchIterate batchSize entryBuffer entries =
     (let entryBuffer' =
            (if length entries = 1 then entryBuffer @ [entries ! 0]
             else foldl (\<lambda>buf e. buf @ [e]) entryBuffer entries)
      in if length entryBuffer' = batchSize then ([entryBuffer'], [])
         else if length entryBuffer' > batchSize
           then (batchIterate entryBuffer' batchSize, [])
         else ([], entryBuffer'))"

text \<open>
  \<open>flush\<close> calls \<open>insertFn\<close> with the buffer when it is not empty. The source has
  no assignment to \<open>entryBuffer.length\<close> in this method, so the buffer is returned as it
  was.
\<close>

definition flush :: "'a list \<Rightarrow> 'a list list \<times> 'a list" where
  "flush entryBuffer =
     (if length entryBuffer > 0 then ([entryBuffer], entryBuffer) else ([], entryBuffer))"




text \<open>
  What the statements about bulk pushes ask of the helper for the batch size \<open>n\<close>, on a
  list of more than \<open>n\<close> items (it is called on no other): \<open>splitsInOrder\<close>, its
  chunks put together in order make up the list; \<open>chunksWithin\<close>, no chunk is empty or
  has more than \<open>n\<close> items.
\<close>

definition splitsInOrder :: "('a list \<Rightarrow> nat \<Rightarrow> 'a list list) \<Rightarrow> nat \<Rightarrow> bool" where
  "splitsInOrder batchIterate n = (\<forall>xs. n < length xs \<longrightarrow> concat (batchIterate xs n) = xs)"


text \<open>
  One helper with both properties, for the examples: successive chunks of the batch size,
  the last one with what is left. It is an instance of the hypotheses, not a rendering of
  the helper of the source.
\<close>

fun chunksWithRest :: "'a list \<Rightarrow> nat \<Rightarrow> 'a list list" where
  "chunksWithRest items batchSize =
     (if items = [] \<or> batchSize = 0 then []
      else take batchSize items # chunksWithRest (drop batchSize items) batchSize)"

declare chunksWithRest.simps [simp del]

section \<open>Principal-linking rows of a transaction: processStxEvents\<close>

text \<open>
  The records hold the fields the import reads. \<open>DbTx\<close>, \<open>DbStxEvent\<close> and
  \<open>PrincipalStxTxsInsertValues\<close> are declared in ../datastore/common; the fields below
  are those event-import-preorg.ts names. An optional string field is a
  \<open>string option\<close>. The event kinds the import only hands on to the store are opaque.
\<close>

record DbTx =
  tx_id :: string
  tx_index :: int
  block_height :: int
  index_block_hash :: string
  microblock_hash :: string
  microblock_sequence :: int
  canonical :: bool
  microblock_canonical :: bool
  sender_address :: string
  token_transfer_recipient_address :: "string option"
  contract_call_contract_id :: "string option"
  smart_contract_contract_id :: "string option"

record DbStxEvent =
  sender :: "string option"
  recipient :: "string option"

typedecl DbSmartContractEvent
typedecl DbStxLockEvent
typedecl DbFtEvent
typedecl DbNftEvent
typedecl DbSmartContract
typedecl DbBnsName
typedecl DbBnsNamespace

record DataStoreTxEventData =
  tx :: DbTx
  stxEvents :: "DbStxEvent list"
  contractLogEvents :: "DbSmartContractEvent list"
  stxLockEvents :: "DbStxLockEvent list"
  ftEvents :: "DbFtEvent list"
  nftEvents :: "DbNftEvent list"
  smartContracts :: "DbSmartContract list"
  names :: "DbBnsName list"
  namespaces :: "DbBnsNamespace list"

record PrincipalStxTxsInsertValues =
  principal :: string
  row_tx_id :: string
  row_block_height :: int
  row_index_block_hash :: string
  row_microblock_hash :: string
  row_microblock_sequence :: int
  row_tx_index :: int
  row_canonical :: bool
  row_microblock_canonical :: bool

text \<open>
  A JavaScript \<open>Set<string>\<close> is a list without repetition in insertion order:
  \<open>has\<close> is membership and \<open>add\<close> appends a string that is not yet there.
\<close>

definition setAdd :: "string list \<Rightarrow> string \<Rightarrow> string list" where
  "setAdd s x = (if x \<in> set s then s else s @ [x])"

text \<open>\<open>!!p\<close> on an optional string: defined and not the empty string.\<close>

definition truthy :: "string option \<Rightarrow> string option" where
  "truthy p = (case p of None \<Rightarrow> None | Some s \<Rightarrow> if s = [] then None else Some s)"

text \<open>
  The set \<open>principals\<close> of \<open>processStxEvents\<close>: the four transaction fields that pass
  the filter \<open>!!p\<close>, then for every STX event its sender and its recipient, each when
  truthy.
\<close>

definition addEventPrincipals :: "string list \<Rightarrow> DbStxEvent \<Rightarrow> string list" where
  "addEventPrincipals principals event =
     (let principals1 = (case truthy (sender event) of
                           Some s \<Rightarrow> setAdd principals s | None \<Rightarrow> principals)
      in case truthy (recipient event) of
           Some r \<Rightarrow> setAdd principals1 r | None \<Rightarrow> principals1)"

definition txPrincipals :: "DataStoreTxEventData \<Rightarrow> string list" where
  "txPrincipals entry =
     (let principals = foldl setAdd []
            (List.map_filter truthy
               [Some (sender_address (tx entry)),
                token_transfer_recipient_address (tx entry),
                contract_call_contract_id (tx entry),
                smart_contract_contract_id (tx entry)])
      in foldl addEventPrincipals principals (stxEvents entry))"

text \<open>
  The key string of the inner function \<open>push\<close>:
  \<open>`${principal},${tx_id},${index_block_hash},${microblock_hash}`\<close>.
\<close>

definition contraintKey :: "DbTx \<Rightarrow> string \<Rightarrow> string" where
  "contraintKey t p =
     p @ '','' @ tx_id t @ '','' @ index_block_hash t @ '','' @ microblock_hash t"

definition principalRow :: "DbTx \<Rightarrow> string \<Rightarrow> PrincipalStxTxsInsertValues" where
  "principalRow t p =
     \<lparr>principal = p,
      row_tx_id = tx_id t,
      row_block_height = block_height t,
      row_index_block_hash = index_block_hash t,
      row_microblock_hash = microblock_hash t,
      row_microblock_sequence = microblock_sequence t,
      row_tx_index = tx_index t,
      row_canonical = canonical t,
      row_microblock_canonical = microblock_canonical t\<rparr>"

text \<open>
  The inner function \<open>push\<close> of \<open>processStxEvents\<close>, on the two locals it closes
  over: the key set \<open>alreadyInsertedRowKeys\<close> and the array \<open>values\<close>.
\<close>

definition processStxEvents_push ::
  "DataStoreTxEventData \<Rightarrow> string list \<times> PrincipalStxTxsInsertValues list \<Rightarrow> string
   \<Rightarrow> string list \<times> PrincipalStxTxsInsertValues list" where
  "processStxEvents_push entry st p =
     (case st of (alreadyInsertedRowKeys, vals) \<Rightarrow>
        if contraintKey (tx entry) p \<notin> set alreadyInsertedRowKeys
        then (setAdd alreadyInsertedRowKeys (contraintKey (tx entry) p),
              vals @ [principalRow (tx entry) p])
        else (alreadyInsertedRowKeys, vals))"

text \<open>
  \<open>processStxEvents(entry)\<close> creates both locals empty, runs \<open>push\<close> over the set of
  principals, and pushes \<open>values\<close> to the principal accumulator. The result is the key set
  as it stands when the call ends (it is dropped there) and \<open>values\<close>.
\<close>

definition processStxEvents ::
  "DataStoreTxEventData \<Rightarrow> string list \<times> PrincipalStxTxsInsertValues list" where
  "processStxEvents entry = foldl (processStxEvents_push entry) ([], []) (txPrincipals entry)"

text \<open>
  The loop over \<open>dbData.txs\<close> calls \<open>processStxEvents\<close> once for each transaction of the
  block, in order. For one block: the key set at the end of each call, and the rows each
  call hands to the principal accumulator.
\<close>

definition blockKeySets :: "DataStoreTxEventData list \<Rightarrow> string list list" where
  "blockKeySets txs = map (\<lambda>entry. fst (processStxEvents entry)) txs"

definition blockPrincipalRows :: "DataStoreTxEventData list \<Rightarrow> PrincipalStxTxsInsertValues list list" where
  "blockPrincipalRows txs = map (\<lambda>entry. snd (processStxEvents entry)) txs"

text \<open>
  The candidate principals of a transaction, in the words of the specification: the sender
  address, the token-transfer recipient, the contract-call contract id, the deployed
  smart-contract id, and every STX-event sender and recipient.
\<close>

definition candidatePrincipals :: "DataStoreTxEventData \<Rightarrow> string option list" where
  "candidatePrincipals entry =
     [Some (sender_address (tx entry)),
      token_transfer_recipient_address (tx entry),
      contract_call_contract_id (tx entry),
      smart_contract_contract_id (tx entry)]
     @ concat (map (\<lambda>event. [sender event, recipient event]) (stxEvents entry))"

text \<open>The columns of the unique constraint of \<open>principal_stx_txs\<close>, as the key string
  lists them: principal, tx id, index block hash, microblock hash.\<close>

definition rowKey :: "PrincipalStxTxsInsertValues \<Rightarrow> string \<times> string \<times> string \<times> string" where
  "rowKey r = (principal r, row_tx_id r, row_index_block_hash r, row_microblock_hash r)"

text \<open>
  A sample transaction for the examples: a token transfer whose sender is also the
  recipient of its single STX event, in an anchor block.
\<close>

definition sampleTx :: "string \<Rightarrow> DbTx" where
  "sampleTx txid =
     \<lparr>tx_id = txid, tx_index = 0, block_height = 7, index_block_hash = ''0xb1'',
      microblock_hash = [], microblock_sequence = 2147483647, canonical = True,
      microblock_canonical = True, sender_address = ''SP1'',
      token_transfer_recipient_address = Some ''SP2'',
      contract_call_contract_id = None, smart_contract_contract_id = None\<rparr>"

definition sampleEntry :: "string \<Rightarrow> DataStoreTxEventData" where
  "sampleEntry txid =
     \<lparr>tx = sampleTx txid,
      stxEvents = [\<lparr>sender = Some ''SP2'', recipient = Some ''SP1''\<rparr>],
      contractLogEvents = [], stxLockEvents = [], ftEvents = [], nftEvents = [],
      smartContracts = [], names = [], namespaces = []\<rparr>"
section \<open>Progress reporting\<close>

text \<open>
  JavaScript numbers are IEEE 754 doubles, and \<open>/\<close> and \<open>*\<close> round their exact result
  to the nearest double, ties to the even significand. A double is held as the rational
  it denotes. \<open>binade x\<close> is the exponent \<open>e\<close> with \<open>2^e \<le> x < 2^(e+1)\<close> for
  \<open>x > 0\<close>; \<open>roundDouble x\<close> is the nearest multiple of \<open>2^(e-52)\<close>, the spacing of
  the doubles of that binade (a significand of 53 bits). The exponent range is not
  limited: the quotients and products below lie between \<open>2^-53\<close> and \<open>2^60\<close> for line
  counts up to \<open>2^53\<close>, far from overflow and from the subnormal numbers. A line count is
  a counter, so it is an integer below \<open>2^53\<close> and a double itself.
\<close>

definition binade :: "rat \<Rightarrow> int" where
  "binade x = (if 1 \<le> x then bitlen \<lfloor>x\<rfloor> - 1 else - bitlen (\<lceil>1 / x\<rceil> - 1))"

definition roundEven :: "rat \<Rightarrow> int" where
  "roundEven x =
     (let f = \<lfloor>x\<rfloor>; d = x - of_int f
      in if d < 1 / 2 then f else if 1 / 2 < d then f + 1 else if even f then f else f + 1)"

definition roundDouble :: "rat \<Rightarrow> rat" where
  "roundDouble x =
     (if x \<le> 0 then 0
      else (let ulp = 2 powi (binade x - 52) in of_int (roundEven (x / ulp)) * ulp))"

text \<open>
  Every phase loop ends its iteration with the same test on \<open>event.readLineCount\<close>:
  \<^verbatim>\<open>if ((readLineCount / tsvLineCount) * 100 > lastStatusUpdatePercent + 20)\<close>, and on
  success stores \<open>Math.floor\<close> of the same expression in \<open>lastStatusUpdatePercent\<close> and
  logs it. \<open>percent\<close> is that expression: the quotient rounded to a double, then the
  product rounded to a double, for \<open>tsvLineCount > 0\<close> (a division by zero gives
  \<open>Infinity\<close> or \<open>NaN\<close>, which the rationals do not have; every statement below takes
  \<open>tsvLineCount > 0\<close>). The sum \<open>lastStatusUpdatePercent + 20\<close>, the comparison and
  \<open>Math.floor\<close> are exact. The state is \<open>lastStatusUpdatePercent\<close> and the percentages
  logged so far.
\<close>

definition percent :: "nat \<Rightarrow> nat \<Rightarrow> rat" where
  "percent readLineCount tsvLineCount =
     roundDouble (roundDouble (of_nat readLineCount / of_nat tsvLineCount) * 100)"

definition statusUpdate :: "nat \<Rightarrow> nat \<Rightarrow> int \<times> int list \<Rightarrow> int \<times> int list" where
  "statusUpdate tsvLineCount readLineCount st =
     (case st of (lastStatusUpdatePercent, logged) \<Rightarrow>
        if percent readLineCount tsvLineCount > of_int (lastStatusUpdatePercent + 20)
        then (\<lfloor>percent readLineCount tsvLineCount\<rfloor>,
              logged @ [\<lfloor>percent readLineCount tsvLineCount\<rfloor>])
        else (lastStatusUpdatePercent, logged))"

text \<open>
  The percentages a phase loop logs over records with the given \<open>readLineCount\<close> values,
  starting from \<open>lastStatusUpdatePercent = 0\<close>. The new-blocks phase logs one more line
  after its loop, \<open>Processed '/new_block' events: 100%\<close>, whatever the loop logged.
\<close>

definition progressLog :: "nat \<Rightarrow> nat list \<Rightarrow> int list" where
  "progressLog tsvLineCount readLineCounts =
     snd (foldl (\<lambda>st r. statusUpdate tsvLineCount r st) (0, []) readLineCounts)"

definition newBlockProgressLog :: "nat \<Rightarrow> nat list \<Rightarrow> int list" where
  "newBlockProgressLog tsvLineCount readLineCounts =
     progressLog tsvLineCount readLineCounts @ [100]"

text \<open>The percentage of the last entry of a log, 0 when nothing is logged yet: the value
  of \<open>lastStatusUpdatePercent\<close>.\<close>

definition lastLogged :: "int list \<Rightarrow> int" where
  "lastLogged logged = (if logged = [] then 0 else last logged)"

text \<open>What holds of the state of the progress test after any number of records.\<close>

definition progressInv :: "int \<times> int list \<Rightarrow> bool" where
  "progressInv st = (case st of (l, logged) \<Rightarrow>
     0 \<le> l \<and> l \<le> 100 \<and> 20 * int (length logged) \<le> l \<and> length logged \<le> 4
     \<and> (\<forall>p \<in> set logged. 20 \<le> p \<and> p \<le> l)
     \<and> sorted_wrt (\<lambda>a b. a + 20 \<le> b) logged)"

section \<open>The storage, its operations and the transaction\<close>

text \<open>
  \<open>PgWriteStore\<close> (../datastore/pg-write-store) is outside the files covered here; the
  import only calls it. A call is recorded with its arguments (\<open>sql\<close>, the time tracker
  and the constant flags left out), and the storage is the log of the calls that are
  durable, in order, with \<open>Begin\<close> and \<open>Commit\<close> around the calls of a committed
  transaction. The payload types the import hands on unread are opaque.
\<close>

datatype error = IOError | ParseError | StorageError

typedecl DbBurnchainReward
typedecl DbRewardSlotHolder
typedecl DbBlock
typedecl DbMicroblockPartial

record DbBnsSubdomain =
  subdomain_index_block_hash :: "string option"

record subdomainBlockData =
  block_index_block_hash :: string
  parent_index_block_hash :: string
  block_microblock_hash :: string
  block_microblock_sequence :: int
  block_microblock_canonical :: bool

datatype dbCall =
    Begin
  | Commit
  | ToggleTableIndexes "string list" bool
  | Reindex string
  | UpdateBurnchainRewards string int "DbBurnchainReward list"
  | UpdateBurnchainRewardSlotHolders string int "DbRewardSlotHolder list"
  | UpdateBatchSubdomains subdomainBlockData "DbBnsSubdomain list"
  | StoreRawEventRequest1 string string
  | UpdateBlock DbBlock
  | InsertMicroblock "DbMicroblockPartial list"
  | UpdateTxBatch "DbTx list"
  | UpdateBatchStxEvents DbTx "DbStxEvent list"
  | InsertPrincipalStxTxsBatched "PrincipalStxTxsInsertValues list"
  | UpdateBatchSmartContractEvent DbTx "DbSmartContractEvent list"
  | UpdateStxLockEvent DbTx DbStxLockEvent
  | UpdateFtEvent DbTx DbFtEvent
  | UpdateNftEvent DbTx DbNftEvent
  | UpdateSmartContract DbTx DbSmartContract
  | UpdateNames DbTx DbBnsName
  | UpdateNamespaces DbTx DbBnsNamespace

text \<open>
  The tables a call works on: the tables given to \<open>toggleTableIndexes\<close> and
  \<open>REINDEX TABLE\<close>, and for an insert the tables the source names in the comment above
  the call (\<open>// INSERT INTO txs\<close>), or in the method name for the two burn-block calls.
\<close>

fun tablesOf :: "dbCall \<Rightarrow> string list" where
  "tablesOf Begin = []"
| "tablesOf Commit = []"
| "tablesOf (ToggleTableIndexes tables enabled) = tables"
| "tablesOf (Reindex table) = [table]"
| "tablesOf (UpdateBurnchainRewards h n rs) = [''burnchain_rewards'']"
| "tablesOf (UpdateBurnchainRewardSlotHolders h n hs) = [''reward_slot_holders'']"
| "tablesOf (UpdateBatchSubdomains b ss) = [''zonefiles'', ''subdomains'']"
| "tablesOf (StoreRawEventRequest1 p d) = [''event_observer_requests'']"
| "tablesOf (UpdateBlock b) = [''blocks'']"
| "tablesOf (InsertMicroblock ms) = [''microblocks'']"
| "tablesOf (UpdateTxBatch ts) = [''txs'']"
| "tablesOf (UpdateBatchStxEvents t es) = [''stx_events'']"
| "tablesOf (InsertPrincipalStxTxsBatched rs) = [''principal_stx_txs'']"
| "tablesOf (UpdateBatchSmartContractEvent t es) = [''contract_logs'']"
| "tablesOf (UpdateStxLockEvent t e) = [''stx_lock_events'']"
| "tablesOf (UpdateFtEvent t e) = [''ft_events'']"
| "tablesOf (UpdateNftEvent t e) = [''nft_events'']"
| "tablesOf (UpdateSmartContract t c) = [''smart_contracts'']"
| "tablesOf (UpdateNames t n) = [''names'']"
| "tablesOf (UpdateNamespaces t n) = [''namespaces'']"

text \<open>The calls that insert rows: all but the transaction marks, the index switch and the
  reindexing.\<close>

fun isInsert :: "dbCall \<Rightarrow> bool" where
  "isInsert Begin = False"
| "isInsert Commit = False"
| "isInsert (ToggleTableIndexes tables enabled) = False"
| "isInsert (Reindex table) = False"
| "isInsert c = True"

definition insertInto :: "string list \<Rightarrow> dbCall \<Rightarrow> bool" where
  "insertInto tables c = (isInsert c \<and> set (tablesOf c) \<subseteq> set tables)"

text \<open>
  Every awaited call and every parse can throw. A thrown error is \<open>Inl\<close>; no function of
  the import catches one, so the first \<open>Inl\<close> ends every enclosing loop and function.
\<close>

definition bindE :: "error + 'a \<Rightarrow> ('a \<Rightarrow> error + 'b) \<Rightarrow> error + 'b" where
  "bindE m f = (case m of Inl e \<Rightarrow> Inl e | Inr x \<Rightarrow> f x)"

fun forEachE :: "('a \<Rightarrow> 's \<Rightarrow> error + 's) \<Rightarrow> 'a list \<Rightarrow> 's \<Rightarrow> error + 's" where
  "forEachE f [] s = Inr s"
| "forEachE f (x # xs) s = (case f x s of Inl e \<Rightarrow> Inl e | Inr s' \<Rightarrow> forEachE f xs s')"

text \<open>
  The state of a phase loop: the calls made so far inside the open transaction, and the
  two variables of the progress test. Which calls the storage rejects is a parameter
  \<open>fails\<close>: a rejected call throws and has no effect.
\<close>

record loopState =
  calls :: "dbCall list"
  lastStatusUpdatePercent :: int
  logged :: "int list"

definition exec :: "(dbCall \<Rightarrow> bool) \<Rightarrow> dbCall \<Rightarrow> 'a loopState_scheme \<Rightarrow> error + 'a loopState_scheme" where
  "exec fails c st = (if fails c then Inl StorageError else Inr (st\<lparr>calls := calls st @ [c]\<rparr>))"

definition reportProgress :: "nat \<Rightarrow> nat \<Rightarrow> 'a loopState_scheme \<Rightarrow> 'a loopState_scheme" where
  "reportProgress lineTotal lineCount st =
     (case statusUpdate lineTotal lineCount (lastStatusUpdatePercent st, logged st) of
        (l, lg) \<Rightarrow> st\<lparr>lastStatusUpdatePercent := l, logged := lg\<rparr>)"

text \<open>
  Modelled from the spec: the transactional scoping of the storage collaborator
  (\<open>db.sql.begin(callback)\<close>, from the database driver), with commit and rollback. When the
  callback returns, its calls become durable together; when it throws, none of them does,
  the index switch included, and the error is passed on.
\<close>

definition sql_begin :: "error + dbCall list \<Rightarrow> dbCall list \<Rightarrow> error option \<times> dbCall list" where
  "sql_begin callback db =
     (case callback of
        Inl e \<Rightarrow> (Some e, db)
      | Inr cs \<Rightarrow> (None, db @ [Begin] @ cs @ [Commit]))"

text \<open>
  The callback has the same shape in the four phase functions: switch the indexes of the
  phase's tables off, run the loop over the stream of records, run what follows the loop
  (the two flushes and the final log line of the new-blocks phase, nothing in the others),
  switch the indexes on.
\<close>

definition phaseCallback ::
  "(dbCall \<Rightarrow> bool) \<Rightarrow> string list
   \<Rightarrow> ('e \<Rightarrow> 'a loopState_scheme \<Rightarrow> error + 'a loopState_scheme)
   \<Rightarrow> ('a loopState_scheme \<Rightarrow> error + 'a loopState_scheme)
   \<Rightarrow> 'e list \<Rightarrow> 'a loopState_scheme \<Rightarrow> error + dbCall list" where
  "phaseCallback fails tables step afterLoop stream st0 =
     bindE (exec fails (ToggleTableIndexes tables False) st0) (\<lambda>st1.
     bindE (forEachE step stream st1) (\<lambda>st2.
     bindE (afterLoop st2) (\<lambda>st3.
     bindE (exec fails (ToggleTableIndexes tables True) st3) (\<lambda>st4.
     Inr (calls st4)))))"

text \<open>
  After the transaction each table of the phase is reindexed, outside any transaction:
  a reindexing that succeeded stays when a later one throws.
\<close>

fun reindexTables :: "(dbCall \<Rightarrow> bool) \<Rightarrow> string list \<Rightarrow> dbCall list \<Rightarrow> error option \<times> dbCall list" where
  "reindexTables fails [] db = (None, db)"
| "reindexTables fails (table # tables) db =
     (if fails (Reindex table) then (Some StorageError, db)
      else reindexTables fails tables (db @ [Reindex table]))"

definition phase ::
  "(dbCall \<Rightarrow> bool) \<Rightarrow> string list \<Rightarrow> error + dbCall list \<Rightarrow> dbCall list
   \<Rightarrow> error option \<times> dbCall list" where
  "phase fails tables callback db =
     (case sql_begin callback db of
        (Some e, db') \<Rightarrow> (Some e, db')
      | (None, db') \<Rightarrow> reindexTables fails tables db')"

section \<open>The four phases and the import\<close>

text \<open>
  \<open>TsvEntityData\<close> with the three fields the import reads, a record of the preorg file as
  \<open>readPreorgTsv\<close> yields it, and the parsed payloads: a burn block (the hash and height
  of the message with the rewards and slot holders \<open>parseBurnBlockMessage\<close> returns) and
  the data of a new block.
\<close>

record TsvEntityData =
  indexBlockHashes :: "string list"
  burnBlockHashes :: "string list"
  tsvLineCount :: nat

record preorgEvent =
  path :: string
  payload :: string
  readLineCount :: nat

record burnBlock =
  burn_block_hash :: string
  burn_block_height :: int
  rewards :: "DbBurnchainReward list"
  slotHolders :: "DbRewardSlotHolder list"

record DataStoreBlockUpdateData =
  block :: DbBlock
  microblocks :: "DbMicroblockPartial list"
  txs :: "DataStoreTxEventData list"

text \<open>
  The functions the import calls from files outside the ones covered here are parameters,
  one record of them for a run: the scan and the reorg transform of ./tsv-pre-org (on the
  contents of the raw file; \<open>None\<close> when they throw), \<open>JSON.stringify\<close> and
  \<open>JSON.parse\<close> on the entity data, the decoding of the preorg file into records, the
  parsers of ../event-stream/event-server composed with \<open>JSON.parse\<close> (\<open>None\<close> when
  either throws; the chain id is fixed for the run), the calls the storage rejects, and
  the helper \<open>batchIterate\<close> of ../helpers at the item types of the two accumulators of
  the new-blocks phase.
\<close>

record env =
  getCanonicalEntityList :: "string \<Rightarrow> TsvEntityData option"
  createTsvReorgStream :: "string list \<Rightarrow> string list \<Rightarrow> string \<Rightarrow> string option"
  entityDataToJson :: "TsvEntityData \<Rightarrow> string"
  entityDataFromJson :: "string \<Rightarrow> TsvEntityData option"
  preorgRecords :: "string \<Rightarrow> preorgEvent list"
  parseBurnBlockMessage :: "string \<Rightarrow> burnBlock option"
  parseAttachmentMessage :: "string \<Rightarrow> DbBnsSubdomain list option"
  parseNewBlockMessage :: "string \<Rightarrow> DataStoreBlockUpdateData option"
  dbFails :: "dbCall \<Rightarrow> bool"
  batchIterateTx :: "DbTx list \<Rightarrow> nat \<Rightarrow> DbTx list list"
  batchIteratePrincipal ::
    "PrincipalStxTxsInsertValues list \<Rightarrow> nat \<Rightarrow> PrincipalStxTxsInsertValues list list"

text \<open>
  Modelled from the spec: the Preorg Reader \<open>readPreorgTsv(filePath, path?)\<close> of
  ./tsv-pre-org, which yields the records of the preorg file in file order, filtered to a
  single event path when one is given.
\<close>

definition readPreorgTsv :: "env \<Rightarrow> string \<Rightarrow> string option \<Rightarrow> preorgEvent list" where
  "readPreorgTsv e preorg p =
     (case p of
        None \<Rightarrow> preorgRecords e preorg
      | Some q \<Rightarrow> filter (\<lambda>event. path event = q) (preorgRecords e preorg))"

definition initialLoopState :: loopState where
  "initialLoopState = \<lparr>calls = [], lastStatusUpdatePercent = 0, logged = []\<rparr>"

subsection \<open>insertNewBurnBlockEvents\<close>

definition burnBlockStep ::
  "env \<Rightarrow> TsvEntityData \<Rightarrow> preorgEvent \<Rightarrow> 'a loopState_scheme \<Rightarrow> error + 'a loopState_scheme" where
  "burnBlockStep e tsvEntityData event st =
     (case parseBurnBlockMessage e (payload event) of
        None \<Rightarrow> Inl ParseError
      | Some burnBlockData \<Rightarrow>
          bindE (if length (rewards burnBlockData) > 0
                 then exec (dbFails e)
                        (UpdateBurnchainRewards (burn_block_hash burnBlockData)
                           (burn_block_height burnBlockData) (rewards burnBlockData)) st
                 else Inr st) (\<lambda>st1.
          bindE (if length (slotHolders burnBlockData) > 0
                 then exec (dbFails e)
                        (UpdateBurnchainRewardSlotHolders (burn_block_hash burnBlockData)
                           (burn_block_height burnBlockData) (slotHolders burnBlockData)) st1
                 else Inr st1) (\<lambda>st2.
          Inr (reportProgress (tsvLineCount tsvEntityData) (readLineCount event) st2))))"

definition burnBlockTables :: "string list" where
  "burnBlockTables = [''burnchain_rewards'', ''reward_slot_holders'']"

definition burnBlockCallback :: "env \<Rightarrow> TsvEntityData \<Rightarrow> string \<Rightarrow> error + dbCall list" where
  "burnBlockCallback e tsvEntityData preorg =
     phaseCallback (dbFails e) burnBlockTables (burnBlockStep e tsvEntityData) Inr
       (readPreorgTsv e preorg (Some ''/new_burn_block'')) initialLoopState"

definition insertNewBurnBlockEvents ::
  "env \<Rightarrow> TsvEntityData \<Rightarrow> string \<Rightarrow> dbCall list \<Rightarrow> error option \<times> dbCall list" where
  "insertNewBurnBlockEvents e tsvEntityData preorg db =
     phase (dbFails e) burnBlockTables (burnBlockCallback e tsvEntityData preorg) db"

subsection \<open>insertNewAttachmentEvents\<close>

text \<open>The loop over \<open>attachments.zoneFiles\<close> has an empty body (its insert is commented
  out); the loop over \<open>attachments.subdomains\<close> makes one call for each subdomain.\<close>

text \<open>Modelled from the spec: the constant \<open>I32_MAX\<close> of ../helpers, by its name the
  largest signed 32-bit integer; no statement below depends on its value.\<close>

definition I32_MAX :: int where
  "I32_MAX = 2147483647"

definition subdomainBlock :: "DbBnsSubdomain \<Rightarrow> subdomainBlockData" where
  "subdomainBlock subdomain =
     \<lparr>block_index_block_hash =
        (case subdomain_index_block_hash subdomain of Some h \<Rightarrow> h | None \<Rightarrow> []),
      parent_index_block_hash = [],
      block_microblock_hash = [],
      block_microblock_sequence = I32_MAX,
      block_microblock_canonical = True\<rparr>"

definition attachmentStep ::
  "env \<Rightarrow> TsvEntityData \<Rightarrow> preorgEvent \<Rightarrow> 'a loopState_scheme \<Rightarrow> error + 'a loopState_scheme" where
  "attachmentStep e tsvEntityData event st =
     (case parseAttachmentMessage e (payload event) of
        None \<Rightarrow> Inl ParseError
      | Some subdomains \<Rightarrow>
          bindE (forEachE (\<lambda>subdomain. exec (dbFails e)
                    (UpdateBatchSubdomains (subdomainBlock subdomain) [subdomain]))
                  subdomains st) (\<lambda>st1.
          Inr (reportProgress (tsvLineCount tsvEntityData) (readLineCount event) st1)))"

definition attachmentTables :: "string list" where
  "attachmentTables = [''zonefiles'', ''subdomains'']"

definition attachmentCallback :: "env \<Rightarrow> TsvEntityData \<Rightarrow> string \<Rightarrow> error + dbCall list" where
  "attachmentCallback e tsvEntityData preorg =
     phaseCallback (dbFails e) attachmentTables (attachmentStep e tsvEntityData) Inr
       (readPreorgTsv e preorg (Some ''/attachments/new'')) initialLoopState"

definition insertNewAttachmentEvents ::
  "env \<Rightarrow> TsvEntityData \<Rightarrow> string \<Rightarrow> dbCall list \<Rightarrow> error option \<times> dbCall list" where
  "insertNewAttachmentEvents e tsvEntityData preorg db =
     phase (dbFails e) attachmentTables (attachmentCallback e tsvEntityData preorg) db"

subsection \<open>insertRawEvents\<close>

text \<open>The raw phase reads every record of the preorg file and parses none.\<close>

definition rawEventStep ::
  "env \<Rightarrow> TsvEntityData \<Rightarrow> preorgEvent \<Rightarrow> 'a loopState_scheme \<Rightarrow> error + 'a loopState_scheme" where
  "rawEventStep e tsvEntityData event st =
     bindE (exec (dbFails e) (StoreRawEventRequest1 (path event) (payload event)) st) (\<lambda>st1.
     Inr (reportProgress (tsvLineCount tsvEntityData) (readLineCount event) st1))"

definition rawEventTables :: "string list" where
  "rawEventTables = [''event_observer_requests'']"

definition rawEventCallback :: "env \<Rightarrow> TsvEntityData \<Rightarrow> string \<Rightarrow> error + dbCall list" where
  "rawEventCallback e tsvEntityData preorg =
     phaseCallback (dbFails e) rawEventTables (rawEventStep e tsvEntityData) Inr
       (readPreorgTsv e preorg None) initialLoopState"

definition insertRawEvents ::
  "env \<Rightarrow> TsvEntityData \<Rightarrow> string \<Rightarrow> dbCall list \<Rightarrow> error option \<times> dbCall list" where
  "insertRawEvents e tsvEntityData preorg db =
     phase (dbFails e) rawEventTables (rawEventCallback e tsvEntityData preorg) db"

subsection \<open>insertNewBlockEvents\<close>

text \<open>
  The loop state of the new-blocks phase adds the block counter and the buffers of the two
  accumulators, both created with batch size 1000. The insert function of an accumulator
  is one storage call for each batch.
\<close>

record newBlockState = loopState +
  blocksInserted :: nat
  dbTxBatchInserter :: "DbTx list"
  dbPrincipalStxTxBatchInserter :: "PrincipalStxTxsInsertValues list"

definition initialNewBlockState :: newBlockState where
  "initialNewBlockState =
     \<lparr>calls = [], lastStatusUpdatePercent = 0, logged = [],
      blocksInserted = 0, dbTxBatchInserter = [], dbPrincipalStxTxBatchInserter = []\<rparr>"

definition pushTx :: "env \<Rightarrow> DbTx list \<Rightarrow> newBlockState \<Rightarrow> error + newBlockState" where
  "pushTx e entries st =
     (case push (batchIterateTx e) 1000 (dbTxBatchInserter st) entries of
        (batches, buffer) \<Rightarrow>
          forEachE (\<lambda>batch. exec (dbFails e) (UpdateTxBatch batch)) batches
            (st\<lparr>dbTxBatchInserter := buffer\<rparr>))"

definition pushPrincipalStxTxs ::
  "env \<Rightarrow> PrincipalStxTxsInsertValues list \<Rightarrow> newBlockState \<Rightarrow> error + newBlockState" where
  "pushPrincipalStxTxs e entries st =
     (case push (batchIteratePrincipal e) 1000 (dbPrincipalStxTxBatchInserter st) entries of
        (batches, buffer) \<Rightarrow>
          forEachE (\<lambda>batch. exec (dbFails e) (InsertPrincipalStxTxsBatched batch)) batches
            (st\<lparr>dbPrincipalStxTxBatchInserter := buffer\<rparr>))"

text \<open>The body of the loop over \<open>dbData.txs\<close>, in the order of the source. The third
  step is the call of \<open>processStxEvents\<close>: its last statement, the push of \<open>values\<close> to
  the principal accumulator, with the rows the function has collected.\<close>

definition txEntryStep :: "env \<Rightarrow> DataStoreTxEventData \<Rightarrow> newBlockState \<Rightarrow> error + newBlockState" where
  "txEntryStep e entry st =
     bindE (pushTx e [tx entry] st) (\<lambda>st1.
     bindE (exec (dbFails e) (UpdateBatchStxEvents (tx entry) (stxEvents entry)) st1) (\<lambda>st2.
     bindE (pushPrincipalStxTxs e (snd (processStxEvents entry)) st2) (\<lambda>st3.
     bindE (exec (dbFails e)
              (UpdateBatchSmartContractEvent (tx entry) (contractLogEvents entry)) st3) (\<lambda>st4.
     bindE (forEachE (\<lambda>ev. exec (dbFails e) (UpdateStxLockEvent (tx entry) ev))
              (stxLockEvents entry) st4) (\<lambda>st5.
     bindE (forEachE (\<lambda>ev. exec (dbFails e) (UpdateFtEvent (tx entry) ev))
              (ftEvents entry) st5) (\<lambda>st6.
     bindE (forEachE (\<lambda>ev. exec (dbFails e) (UpdateNftEvent (tx entry) ev))
              (nftEvents entry) st6) (\<lambda>st7.
     bindE (forEachE (\<lambda>c. exec (dbFails e) (UpdateSmartContract (tx entry) c))
              (smartContracts entry) st7) (\<lambda>st8.
     bindE (forEachE (\<lambda>n. exec (dbFails e) (UpdateNames (tx entry) n))
              (names entry) st8) (\<lambda>st9.
     forEachE (\<lambda>n. exec (dbFails e) (UpdateNamespaces (tx entry) n))
              (namespaces entry) st9)))))))))"

definition newBlockStep ::
  "env \<Rightarrow> TsvEntityData \<Rightarrow> preorgEvent \<Rightarrow> newBlockState \<Rightarrow> error + newBlockState" where
  "newBlockStep e tsvEntityData event st =
     (let st0 = st\<lparr>blocksInserted := blocksInserted st + 1\<rparr>
      in case parseNewBlockMessage e (payload event) of
        None \<Rightarrow> Inl ParseError
      | Some dbData \<Rightarrow>
          bindE (exec (dbFails e) (UpdateBlock (block dbData)) st0) (\<lambda>st1.
          bindE (if length (microblocks dbData) > 0
                 then exec (dbFails e) (InsertMicroblock (microblocks dbData)) st1
                 else Inr st1) (\<lambda>st2.
          bindE (if length (txs dbData) > 0
                 then forEachE (txEntryStep e) (txs dbData) st2
                 else Inr st2) (\<lambda>st3.
          Inr (reportProgress (tsvLineCount tsvEntityData) (readLineCount event) st3)))))"

text \<open>After the loop: flush both accumulators, then log \<open>100%\<close>.\<close>

definition newBlockAfterLoop :: "env \<Rightarrow> newBlockState \<Rightarrow> error + newBlockState" where
  "newBlockAfterLoop e st =
     bindE (forEachE (\<lambda>batch. exec (dbFails e) (UpdateTxBatch batch))
              (fst (flush (dbTxBatchInserter st)))
              (st\<lparr>dbTxBatchInserter := snd (flush (dbTxBatchInserter st))\<rparr>)) (\<lambda>st1.
     bindE (forEachE (\<lambda>batch. exec (dbFails e) (InsertPrincipalStxTxsBatched batch))
              (fst (flush (dbPrincipalStxTxBatchInserter st1)))
              (st1\<lparr>dbPrincipalStxTxBatchInserter :=
                     snd (flush (dbPrincipalStxTxBatchInserter st1))\<rparr>)) (\<lambda>st2.
     Inr (st2\<lparr>logged := logged st2 @ [100]\<rparr>)))"

definition newBlockTables :: "string list" where
  "newBlockTables =
     [''blocks'', ''microblocks'', ''txs'', ''stx_events'', ''principal_stx_txs'',
      ''contract_logs'', ''stx_lock_events'', ''ft_events'', ''nft_events'',
      ''smart_contracts'', ''names'', ''namespaces'']"

definition newBlockCallback :: "env \<Rightarrow> TsvEntityData \<Rightarrow> string \<Rightarrow> error + dbCall list" where
  "newBlockCallback e tsvEntityData preorg =
     phaseCallback (dbFails e) newBlockTables (newBlockStep e tsvEntityData)
       (newBlockAfterLoop e) (readPreorgTsv e preorg (Some ''/new_block''))
       initialNewBlockState"

definition insertNewBlockEvents ::
  "env \<Rightarrow> TsvEntityData \<Rightarrow> string \<Rightarrow> dbCall list \<Rightarrow> error option \<times> dbCall list" where
  "insertNewBlockEvents e tsvEntityData preorg db =
     phase (dbFails e) newBlockTables (newBlockCallback e tsvEntityData preorg) db"

subsection \<open>preOrgTsvImport\<close>

text \<open>
  The files are a map from path to contents. The first part of \<open>preOrgTsvImport\<close> loads or
  computes the entity data and the preorg file; the result records what it computed rather
  than found. What a failed run leaves in the files is not modelled: a failure returns the
  error alone.
\<close>

datatype artifactAction = ScanCanonical | WritePreorg

definition loadEntityData ::
  "env \<Rightarrow> string \<Rightarrow> (string \<rightharpoonup> string)
   \<Rightarrow> error + (string \<rightharpoonup> string) \<times> TsvEntityData \<times> artifactAction list" where
  "loadEntityData e filePath files =
     (case files (filePath @ ''.entitydata'') of
        Some json \<Rightarrow>
          (case entityDataFromJson e json of
             None \<Rightarrow> Inl ParseError
           | Some tsvEntityData \<Rightarrow> Inr (files, tsvEntityData, []))
      | None \<Rightarrow>
          (case files filePath of
             None \<Rightarrow> Inl IOError
           | Some raw \<Rightarrow>
               (case getCanonicalEntityList e raw of
                  None \<Rightarrow> Inl ParseError
                | Some tsvEntityData \<Rightarrow>
                    Inr (files(filePath @ ''.entitydata'' \<mapsto> entityDataToJson e tsvEntityData),
                         tsvEntityData, [ScanCanonical]))))"

definition loadArtifacts ::
  "env \<Rightarrow> string \<Rightarrow> (string \<rightharpoonup> string)
   \<Rightarrow> error + (string \<rightharpoonup> string) \<times> TsvEntityData \<times> artifactAction list" where
  "loadArtifacts e filePath files =
     bindE (loadEntityData e filePath files) (\<lambda>(files1, tsvEntityData, actions).
       case files1 (filePath @ ''-preorg'') of
         Some preorg \<Rightarrow> Inr (files1, tsvEntityData, actions)
       | None \<Rightarrow>
           (case files1 filePath of
              None \<Rightarrow> Inl IOError
            | Some raw \<Rightarrow>
                (case createTsvReorgStream e (indexBlockHashes tsvEntityData)
                        (burnBlockHashes tsvEntityData) raw of
                   None \<Rightarrow> Inl ParseError
                 | Some preorg \<Rightarrow>
                     Inr (files1(filePath @ ''-preorg'' \<mapsto> preorg), tsvEntityData,
                          actions @ [WritePreorg]))))"

text \<open>A phase runs when the one before it has returned; an error of a phase ends the
  import.\<close>

definition thenPhase ::
  "error option \<times> dbCall list \<Rightarrow> (dbCall list \<Rightarrow> error option \<times> dbCall list)
   \<Rightarrow> error option \<times> dbCall list" where
  "thenPhase r next_phase = (case r of (Some e, db) \<Rightarrow> (Some e, db) | (None, db) \<Rightarrow> next_phase db)"

definition runPhases ::
  "env \<Rightarrow> TsvEntityData \<Rightarrow> string \<Rightarrow> dbCall list \<Rightarrow> error option \<times> dbCall list" where
  "runPhases e tsvEntityData preorg db =
     thenPhase (thenPhase (thenPhase
       (insertNewBurnBlockEvents e tsvEntityData preorg db)
       (insertNewAttachmentEvents e tsvEntityData preorg))
       (insertRawEvents e tsvEntityData preorg))
       (insertNewBlockEvents e tsvEntityData preorg)"

text \<open>
  The import: the artifacts, then the four phases on the preorg file. The result is the
  error of the artifact part, or the files with the outcome of the phases and the storage
  after them. The connection set-up, the two \<open>SHOW\<close> queries and the timing table are
  left out.
\<close>

definition preOrgTsvImport ::
  "env \<Rightarrow> string \<Rightarrow> (string \<rightharpoonup> string) \<Rightarrow> dbCall list
   \<Rightarrow> error + (string \<rightharpoonup> string) \<times> error option \<times> dbCall list" where
  "preOrgTsvImport e filePath files db =
     bindE (loadArtifacts e filePath files) (\<lambda>(files1, tsvEntityData, actions).
       case files1 (filePath @ ''-preorg'') of
         None \<Rightarrow> Inl IOError
       | Some preorg \<Rightarrow> Inr (files1, runPhases e tsvEntityData preorg db))"

section \<open>Notions used in the statements and proofs\<close>

text \<open>
  The four phases by name, with the tables, the callback, the stream and the parser of
  each, to state a property once for all of them. \<open>parses\<close> says that the payload of a
  record of the phase parses (the raw phase parses nothing).
\<close>

datatype phaseName = BurnBlocks | Attachments | RawEvents | NewBlocks

fun phaseTables :: "phaseName \<Rightarrow> string list" where
  "phaseTables BurnBlocks = burnBlockTables"
| "phaseTables Attachments = attachmentTables"
| "phaseTables RawEvents = rawEventTables"
| "phaseTables NewBlocks = newBlockTables"

fun callbackOf :: "env \<Rightarrow> TsvEntityData \<Rightarrow> string \<Rightarrow> phaseName \<Rightarrow> error + dbCall list" where
  "callbackOf e t preorg BurnBlocks = burnBlockCallback e t preorg"
| "callbackOf e t preorg Attachments = attachmentCallback e t preorg"
| "callbackOf e t preorg RawEvents = rawEventCallback e t preorg"
| "callbackOf e t preorg NewBlocks = newBlockCallback e t preorg"

fun importPhase ::
  "env \<Rightarrow> TsvEntityData \<Rightarrow> string \<Rightarrow> phaseName \<Rightarrow> dbCall list \<Rightarrow> error option \<times> dbCall list" where
  "importPhase e t preorg BurnBlocks = insertNewBurnBlockEvents e t preorg"
| "importPhase e t preorg Attachments = insertNewAttachmentEvents e t preorg"
| "importPhase e t preorg RawEvents = insertRawEvents e t preorg"
| "importPhase e t preorg NewBlocks = insertNewBlockEvents e t preorg"



text \<open>The durable log of a phase that ran to its end with the given inserts: the
  transaction from the switching off to the switching on of the indexes, then the
  reindexing of each table.\<close>

definition transactionLog :: "string list \<Rightarrow> dbCall list \<Rightarrow> dbCall list" where
  "transactionLog tables inserts =
     [Begin, ToggleTableIndexes tables False] @ inserts @ [ToggleTableIndexes tables True, Commit]"

definition phaseLog :: "string list \<Rightarrow> dbCall list \<Rightarrow> dbCall list" where
  "phaseLog tables inserts = transactionLog tables inserts @ map Reindex tables"

text \<open>A loop state reached from another by calls that all satisfy a property.\<close>

definition grows :: "(dbCall \<Rightarrow> bool) \<Rightarrow> 'a loopState_scheme \<Rightarrow> 'a loopState_scheme \<Rightarrow> bool" where
  "grows P st st' = (\<exists>cs. calls st' = calls st @ cs \<and> (\<forall>c \<in> set cs. P c))"

text \<open>The outcome of one or more phases started on the storage \<open>db\<close> is part of a full
  log: the storage has grown by an initial part of it, and by all of it when no error
  occurred.\<close>

definition partOf :: "dbCall list \<Rightarrow> dbCall list \<Rightarrow> error option \<times> dbCall list \<Rightarrow> bool" where
  "partOf db full r =
     (\<exists>new rest. snd r = db @ new \<and> new @ rest = full \<and> (fst r = None \<longrightarrow> rest = []))"

text \<open>The two variables of the progress test in a loop state.\<close>

definition progressOf :: "'a loopState_scheme \<Rightarrow> int \<times> int list" where
  "progressOf st = (lastStatusUpdatePercent st, logged st)"

text \<open>The rows that the calls of a log insert into \<open>principal_stx_txs\<close>, in order, and the
  principal-linking rows of all transactions of a new-block record (none when the payload
  does not parse).\<close>

fun principalBatch :: "dbCall \<Rightarrow> PrincipalStxTxsInsertValues list" where
  "principalBatch (InsertPrincipalStxTxsBatched rs) = rs"
| "principalBatch c = []"

definition principalRowsOf :: "dbCall list \<Rightarrow> PrincipalStxTxsInsertValues list" where
  "principalRowsOf cs = concat (map principalBatch cs)"

definition recordPrincipalRows :: "env \<Rightarrow> preorgEvent \<Rightarrow> PrincipalStxTxsInsertValues list" where
  "recordPrincipalRows e event =
     (case parseNewBlockMessage e (payload event) of
        None \<Rightarrow> []
      | Some dbData \<Rightarrow> concat (map (\<lambda>entry. snd (processStxEvents entry)) (txs dbData)))"

text \<open>A new-blocks loop state reached from another with the given rows added to what is
  inserted or buffered for \<open>principal_stx_txs\<close>.\<close>

definition addsRows ::
  "newBlockState \<Rightarrow> newBlockState \<Rightarrow> PrincipalStxTxsInsertValues list \<Rightarrow> bool" where
  "addsRows st st' rows =
     (principalRowsOf (calls st') @ dbPrincipalStxTxBatchInserter st'
      = principalRowsOf (calls st) @ dbPrincipalStxTxBatchInserter st @ rows)"

section \<open>A sample run\<close>

text \<open>
  A raw log of one line, a burn block without rewards and slot holders; its preorg file has
  the same line. A second preorg file holds one new-block record whose payload does not
  parse. The collaborators of the sample run accept every storage call and split a buffer into
  chunks of the batch size, the last one with what is left.
\<close>

definition sampleEntityData :: TsvEntityData where
  "sampleEntityData = \<lparr>indexBlockHashes = [], burnBlockHashes = [''0xbb''], tsvLineCount = 1\<rparr>"

definition sampleBurnBlock :: burnBlock where
  "sampleBurnBlock =
     \<lparr>burn_block_hash = ''0xbb'', burn_block_height = 1, rewards = [], slotHolders = []\<rparr>"

definition sampleRecord :: preorgEvent where
  "sampleRecord = \<lparr>path = ''/new_burn_block'', payload = ''{}'', readLineCount = 1\<rparr>"

definition sampleBadRecord :: preorgEvent where
  "sampleBadRecord = \<lparr>path = ''/new_block'', payload = ''{'', readLineCount = 1\<rparr>"

definition sampleEnv :: env where
  "sampleEnv =
     \<lparr>getCanonicalEntityList = (\<lambda>raw. Some sampleEntityData),
      createTsvReorgStream = (\<lambda>indexHashes burnHashes raw. Some raw),
      entityDataToJson = (\<lambda>d. ''entity''),
      entityDataFromJson = (\<lambda>json. if json = ''entity'' then Some sampleEntityData else None),
      preorgRecords = (\<lambda>content. if content = ''line'' then [sampleRecord]
                                  else if content = ''bad'' then [sampleBadRecord] else []),
      parseBurnBlockMessage = (\<lambda>p. if p = ''{}'' then Some sampleBurnBlock else None),
      parseAttachmentMessage = (\<lambda>p. None),
      parseNewBlockMessage = (\<lambda>p. None),
      dbFails = (\<lambda>c. False),
      batchIterateTx = chunksWithRest,
      batchIteratePrincipal = chunksWithRest\<rparr>"

definition sampleFiles :: "string \<rightharpoonup> string" where
  "sampleFiles = [''log.tsv'' \<mapsto> ''line'']"



text \<open>The files after the sample run, with both artifacts beside the raw log.\<close>

definition sampleFilesAfter :: "string \<rightharpoonup> string" where
  "sampleFilesAfter =
     [''log.tsv'' \<mapsto> ''line'', ''log.tsv.entitydata'' \<mapsto> ''entity'',
      ''log.tsv-preorg'' \<mapsto> ''line'']"
section \<open>Properties\<close>

subsection \<open>The sample helper\<close>

lemma chunksWithRest_Nil [simp]: "chunksWithRest [] n = []"
  by (simp add: chunksWithRest.simps)

lemma chunksWithRest_step:
  "xs \<noteq> [] \<Longrightarrow> 0 < n \<Longrightarrow> chunksWithRest xs n = take n xs # chunksWithRest (drop n xs) n"
  by (subst chunksWithRest.simps) simp

lemma concat_chunksWithRest: "0 < n \<Longrightarrow> concat (chunksWithRest xs n) = xs"
proof (induction xs n rule: chunksWithRest.induct)
  case (1 items batchSize)
  show ?case
  proof (cases "items = []")
    case True
    then show ?thesis by simp
  next
    case False
    with 1 show ?thesis by (simp add: chunksWithRest_step)
  qed
qed


lemma chunksWithRest_splitsInOrder: "0 < n \<Longrightarrow> splitsInOrder chunksWithRest n"
  by (simp add: splitsInOrder_def concat_chunksWithRest)


subsection \<open>Arithmetic of the number of batches\<close>

lemma ceil_div_step: "0 < n \<Longrightarrow> (m + n + n - 1) div n = Suc ((m + n - 1) div n)"
  for m n :: nat
proof -
  assume n: "0 < n"
  then have "m + n + n - 1 = (m + n - 1) + n" by arith
  then show ?thesis using n by (simp only: div_add_self2)
qed






subsection \<open>push, flush and sequences of them\<close>

lemma foldl_snoc: "foldl (\<lambda>buf e. buf @ [e]) buf es = buf @ es"
  by (induction es arbitrary: buf) simp_all

lemma push_append:
  "(if length entries = 1 then buf @ [entries ! 0]
    else foldl (\<lambda>buf e. buf @ [e]) buf entries) = buf @ entries"
proof (cases "length entries = 1")
  case True
  then obtain x where "entries = [x]" by (cases entries) auto
  then show ?thesis by simp
next
  case False
  then show ?thesis by (simp add: foldl_snoc)
qed

lemma push_eq:
  "push bi n buf es =
     (if length (buf @ es) = n then ([buf @ es], [])
      else if length (buf @ es) > n then (bi (buf @ es) n, [])
      else ([], buf @ es))"
  unfolding push_def push_append Let_def ..


lemma push_concat:
  "splitsInOrder bi n \<Longrightarrow> concat (fst (push bi n buf es)) @ snd (push bi n buf es) = buf @ es"
  by (simp add: push_eq splitsInOrder_def)













text \<open>
  C2 (amended). For every batch size \<open>n\<close> and every \<open>push\<close>: the items are appended to
  the buffer; below \<open>n\<close> items nothing is inserted and the buffer keeps them; at exactly
  \<open>n\<close> the buffer is inserted as one batch and emptied; above \<open>n\<close> the insert function
  is called with each batch the helper \<open>batchIterate\<close> yields for the whole buffer, and
  the buffer is emptied: nothing stays buffered. When the chunks of the helper make up the
  list in order, the batches of that call are the whole buffer in order.
\<close>

theorem push_cases:
  "(length (buf @ es) < n \<longrightarrow> push bi n buf es = ([], buf @ es))
   \<and> (length (buf @ es) = n \<longrightarrow> push bi n buf es = ([buf @ es], []))
   \<and> (n < length (buf @ es) \<longrightarrow> push bi n buf es = (bi (buf @ es) n, []))
   \<and> (n < length (buf @ es) \<and> splitsInOrder bi n
        \<longrightarrow> concat (fst (push bi n buf es)) = buf @ es \<and> snd (push bi n buf es) = [])"
proof -
  have 1: "length (buf @ es) < n \<longrightarrow> push bi n buf es = ([], buf @ es)"
    by (simp add: push_eq)
  have 2: "length (buf @ es) = n \<longrightarrow> push bi n buf es = ([buf @ es], [])"
    by (simp add: push_eq)
  have 3: "n < length (buf @ es) \<longrightarrow> push bi n buf es = (bi (buf @ es) n, [])"
    by (simp add: push_eq)
  have 4: "n < length (buf @ es) \<and> splitsInOrder bi n
        \<longrightarrow> concat (fst (push bi n buf es)) = buf @ es \<and> snd (push bi n buf es) = []"
    using 3 by (simp add: splitsInOrder_def)
  from 1 2 3 4 show ?thesis by blast
qed

text \<open>Batch size 3 and one buffered item: one more item stays buffered, two more are
  inserted with it, four more are inserted with it as the sample helper splits the five.\<close>

theorem push_cases_witness:
  "length ([1] @ [2::nat]) < 3 \<and> push chunksWithRest 3 [1] [2::nat] = ([], [1, 2])
   \<and> length ([1] @ [2, 3::nat]) = 3 \<and> push chunksWithRest 3 [1] [2, 3::nat] = ([[1, 2, 3]], [])
   \<and> 3 < length ([1] @ [2, 3, 4, 5::nat])
   \<and> push chunksWithRest 3 [1] [2, 3, 4, 5::nat] = (chunksWithRest [1, 2, 3, 4, 5] 3, [])
   \<and> concat (fst (push chunksWithRest 3 [1] [2, 3, 4, 5::nat])) = [1, 2, 3, 4, 5]"
proof -
  have s: "splitsInOrder (chunksWithRest :: nat list \<Rightarrow> nat \<Rightarrow> nat list list) 3"
    by (rule chunksWithRest_splitsInOrder) simp
  have a: "length ([1] @ [2::nat]) < 3" and b: "length ([1] @ [2, 3::nat]) = 3"
    and c: "3 < length ([1] @ [2, 3, 4, 5::nat])" by simp_all
  from push_cases [of "[1]" "[2::nat]" 3 chunksWithRest] a
  have 1: "push chunksWithRest 3 [1] [2::nat] = ([], [1, 2])" by simp
  from push_cases [of "[1]" "[2, 3::nat]" 3 chunksWithRest] b
  have 2: "push chunksWithRest 3 [1] [2, 3::nat] = ([[1, 2, 3]], [])" by simp
  from push_cases [of "[1]" "[2, 3, 4, 5::nat]" 3 chunksWithRest] c s
  have "push chunksWithRest 3 [1] [2, 3, 4, 5::nat] = (chunksWithRest ([1] @ [2, 3, 4, 5]) 3, [])"
    and "concat (fst (push chunksWithRest 3 [1] [2, 3, 4, 5::nat])) = [1] @ [2, 3, 4, 5]"
    by blast+
  then have 3: "push chunksWithRest 3 [1] [2, 3, 4, 5::nat] = (chunksWithRest [1, 2, 3, 4, 5] 3, [])"
    and 4: "concat (fst (push chunksWithRest 3 [1] [2, 3, 4, 5::nat])) = [1, 2, 3, 4, 5]"
    by simp_all
  from a b c 1 2 3 4 show ?thesis by blast
qed

text \<open>
  C2 as stated fails on the remainder, whatever the helper does: with batch size 3 and an
  empty buffer, a push of four items leaves the buffer empty, where the claim keeps the
  fourth item buffered.
\<close>

theorem push_remainder_counterexample:
  "\<not> (\<exists>bi. snd (push bi 3 [] [1, 2, 3, 4::nat]) = drop 3 [1, 2, 3, 4])"
  by (simp add: push_def)

text \<open>
  C3 at the failing input. A new accumulator of batch size 3 receives one item, then
  \<open>flush\<close> twice: the first \<open>flush\<close> inserts the item and leaves it in the buffer, so
  the second inserts it again. The helper is not called.
\<close>

theorem flush_twice_inserts_twice:
  "(let (c1, b1) = push bi 3 [] [7::nat]; (c2, b2) = flush b1; (c3, b3) = flush b2
    in (c1, c2, c3, b3)) = ([], [[7]], [[7]], [7])"
  by (simp add: push_def flush_def)

subsection \<open>The principals of a transaction and their rows\<close>

lemma setAdd_set [simp]: "set (setAdd s x) = insert x (set s)"
  by (auto simp: setAdd_def)

lemma setAdd_distinct [simp]: "distinct s \<Longrightarrow> distinct (setAdd s x)"
  by (simp add: setAdd_def)

lemma foldl_setAdd_set: "set (foldl setAdd s xs) = set s \<union> set xs"
  by (induction xs arbitrary: s) auto

lemma foldl_setAdd_distinct: "distinct s \<Longrightarrow> distinct (foldl setAdd s xs)"
  by (induction xs arbitrary: s) auto

lemma truthy_Some: "truthy p = Some s \<longleftrightarrow> p = Some s \<and> s \<noteq> []"
  by (auto simp: truthy_def split: option.splits)

lemma truthy_None: "truthy p = None \<longleftrightarrow> p = None \<or> p = Some []"
  by (auto simp: truthy_def split: option.splits)

lemma addEventPrincipals_set:
  "set (addEventPrincipals ps ev)
   = set ps \<union> {s. s \<noteq> [] \<and> (sender ev = Some s \<or> recipient ev = Some s)}"
  by (auto simp: addEventPrincipals_def Let_def truthy_Some truthy_None split: option.splits)

lemma addEventPrincipals_distinct: "distinct ps \<Longrightarrow> distinct (addEventPrincipals ps ev)"
  by (simp add: addEventPrincipals_def Let_def split: option.splits)

lemma foldl_addEventPrincipals_set:
  "set (foldl addEventPrincipals ps evs)
   = set ps \<union> {s. s \<noteq> [] \<and> (\<exists>ev \<in> set evs. sender ev = Some s \<or> recipient ev = Some s)}"
  by (induction evs arbitrary: ps) (auto simp: addEventPrincipals_set)

lemma foldl_addEventPrincipals_distinct:
  "distinct ps \<Longrightarrow> distinct (foldl addEventPrincipals ps evs)"
  by (induction evs arbitrary: ps) (simp_all add: addEventPrincipals_distinct)

lemma txPrincipals_distinct: "distinct (txPrincipals entry)"
  by (simp add: txPrincipals_def Let_def foldl_addEventPrincipals_distinct foldl_setAdd_distinct)

lemma set_map_filter_truthy: "set (List.map_filter truthy ps) = {s. s \<noteq> [] \<and> Some s \<in> set ps}"
  by (induction ps) (auto simp: truthy_Some truthy_None split: option.splits)

lemma txPrincipals_set:
  "set (txPrincipals entry) = {s. s \<noteq> [] \<and> Some s \<in> set (candidatePrincipals entry)}"
  unfolding txPrincipals_def Let_def foldl_addEventPrincipals_set foldl_setAdd_set
    set_map_filter_truthy candidatePrincipals_def
  by (auto; metis)

lemma contraintKey_inj: "contraintKey t p = contraintKey t q \<longleftrightarrow> p = q"
  by (simp add: contraintKey_def)

lemma processStxEvents_push_fold:
  "distinct (seen @ ps) \<Longrightarrow>
   foldl (processStxEvents_push entry)
     (map (contraintKey (tx entry)) seen, map (principalRow (tx entry)) seen) ps
   = (map (contraintKey (tx entry)) (seen @ ps), map (principalRow (tx entry)) (seen @ ps))"
proof (induction ps arbitrary: seen)
  case Nil
  then show ?case by simp
next
  case (Cons p ps)
  from Cons.prems have new: "p \<notin> set seen" and d: "distinct ((seen @ [p]) @ ps)" by auto
  from new have "contraintKey (tx entry) p \<notin> set (map (contraintKey (tx entry)) seen)"
    by (auto simp: contraintKey_inj)
  then have "processStxEvents_push entry
      (map (contraintKey (tx entry)) seen, map (principalRow (tx entry)) seen) p
    = (map (contraintKey (tx entry)) (seen @ [p]), map (principalRow (tx entry)) (seen @ [p]))"
    by (simp add: processStxEvents_push_def setAdd_def)
  with Cons.IH [OF d] show ?case by simp
qed

lemma processStxEvents_eq:
  "processStxEvents entry
   = (map (contraintKey (tx entry)) (txPrincipals entry),
      map (principalRow (tx entry)) (txPrincipals entry))"
  using processStxEvents_push_fold [of "[]" "txPrincipals entry" entry] txPrincipals_distinct
  by (simp add: processStxEvents_def)

lemma principal_principalRow [simp]: "principal (principalRow t p) = p"
  by (simp add: principalRow_def)

lemma rowKey_principalRow:
  "rowKey (principalRow t p) = (p, tx_id t, index_block_hash t, microblock_hash t)"
  by (simp add: rowKey_def principalRow_def)

lemma count_principal_rows:
  "distinct ps \<Longrightarrow>
   length (filter (\<lambda>r. principal r = a) (map (principalRow t) ps)) = (if a \<in> set ps then 1 else 0)"
proof -
  assume d: "distinct ps"
  have "length (filter (\<lambda>r. principal r = a) (map (principalRow t) ps))
        = length (filter (\<lambda>p. p = a) ps)"
    by (induction ps) simp_all
  also from d have "\<dots> = (if a \<in> set ps then 1 else 0)"
    by (induction ps) auto
  finally show ?thesis .
qed

text \<open>
  C5 (amended). The key set is scoped to one transaction: whatever precedes or follows a
  transaction in its block, the key set at the end of its \<open>processStxEvents\<close> call holds
  exactly the keys of that transaction's own principals (it started empty and no key of
  another transaction or block is in it), and the rows of the call depend on the
  transaction alone.
\<close>

theorem key_set_scoped_to_transaction:
  "fst (processStxEvents entry) = map (contraintKey (tx entry)) (txPrincipals entry)
   \<and> blockKeySets (before @ entry # after) ! length before
       = map (contraintKey (tx entry)) (txPrincipals entry)
   \<and> blockPrincipalRows (before @ entry # after) ! length before
       = map (principalRow (tx entry)) (txPrincipals entry)"
  by (simp add: processStxEvents_eq blockKeySets_def blockPrincipalRows_def nth_append)

text \<open>
  C5 as stated fails: in a block of two transactions with the same sender, the key set in
  effect at the end of the second transaction does not hold the key of the first; a set
  kept for the block would.
\<close>

theorem key_set_per_block_counterexample:
  "blockKeySets [sampleEntry ''0x01'', sampleEntry ''0x02'']
     = [[''SP1,0x01,0xb1,'', ''SP2,0x01,0xb1,''], [''SP1,0x02,0xb1,'', ''SP2,0x02,0xb1,'']]
   \<and> ''SP1,0x01,0xb1,'' \<notin> set (last (blockKeySets [sampleEntry ''0x01'', sampleEntry ''0x02'']))"
  by (simp add: blockKeySets_def processStxEvents_def processStxEvents_push_def txPrincipals_def
      addEventPrincipals_def setAdd_def truthy_def contraintKey_def sampleEntry_def sampleTx_def
     )

subsection \<open>Rounding to a double\<close>

lemma powi_nat: "0 \<le> k \<Longrightarrow> (2::rat) powi k = 2 ^ nat k"
  by (simp add: power_int_def)

lemma powi_neg: "0 \<le> k \<Longrightarrow> (2::rat) powi (- k) = 1 / 2 ^ nat k"
  by (cases "k = 0") (simp_all add: power_int_def field_simps)

lemma binade_ge1:
  assumes "1 \<le> x"
  shows "2 powi binade x \<le> x \<and> x < 2 powi (binade x + 1)"
proof -
  let ?m = "\<lfloor>x\<rfloor>"
  from assms have m: "0 < ?m" by simp
  from bitlen_bounds [OF m] have b: "2 ^ nat (bitlen ?m - 1) \<le> ?m" "?m < 2 ^ nat (bitlen ?m)" by simp_all
  from m have k: "1 \<le> bitlen ?m" by (metis bitlen_eq_zero_iff bitlen_nonneg not_less order_le_less zle_add1_eq_le zero_less_one  add.right_neutral add.commute)
  have e: "binade x = bitlen ?m - 1" using assms by (simp add: binade_def)
  have "(2::rat) powi (bitlen ?m - 1) = of_int (2 ^ nat (bitlen ?m - 1))" using k by (simp add: powi_nat)
  also have "\<dots> \<le> of_int ?m" using b(1) by (simp only: of_int_le_iff)
  also have "\<dots> \<le> x" by simp
  finally have lo: "2 powi binade x \<le> x" by (simp add: e)
  have "?m + 1 \<le> 2 ^ nat (bitlen ?m)" using b(2) by simp
  then have "(of_int (?m + 1) :: rat) \<le> of_int (2 ^ nat (bitlen ?m))" by (simp only: of_int_le_iff)
  moreover have "x < of_int (?m + 1)" by simp linarith
  ultimately have "x < of_int (2 ^ nat (bitlen ?m))" by simp
  also have "\<dots> = 2 powi (bitlen ?m)" using k by (simp add: powi_nat)
  finally have hi: "x < 2 powi (binade x + 1)" by (simp add: e)
  from lo hi show ?thesis ..
qed

lemma binade_lt1:
  assumes "0 < x" "x < 1"
  shows "2 powi binade x \<le> x \<and> x < 2 powi (binade x + 1)"
proof -
  define m where "m = \<lceil>1 / x\<rceil> - 1"
  define P :: rat where "P = 2 ^ nat (bitlen m)"
  define Q :: rat where "Q = 2 ^ nat (bitlen m - 1)"
  from assms have y: "1 < 1 / x" by simp
  then have m: "0 < m" by (simp add: m_def less_ceiling_iff)
  from m have k: "1 \<le> bitlen m" using bitlen_eq_zero_iff [of m] bitlen_nonneg [of m] by linarith
  have e: "binade x = - bitlen m" using assms by (simp add: binade_def m_def)
  have my: "of_int m < 1 / x" "1 / x \<le> of_int m + 1"
    using ceiling_correct [of "1 / x"] by (simp_all add: m_def)
  from bitlen_bounds [OF m] have "(of_int (2 ^ nat (bitlen m - 1)) :: rat) \<le> of_int m"
    and "(of_int (m + 1) :: rat) \<le> of_int (2 ^ nat (bitlen m))"
    by (simp_all only: of_int_le_iff) simp
  then have b: "Q \<le> of_int m" "of_int m + 1 \<le> P" by (simp_all add: P_def Q_def)
  have pos: "0 < P" "0 < Q" by (simp_all add: P_def Q_def)
  from my(2) b(2) have "1 / x \<le> P" by linarith
  then have "1 / P \<le> x" using assms(1) pos by (simp add: field_simps)
  moreover have "2 powi binade x = 1 / P" using k by (simp add: e powi_neg P_def)
  ultimately have lo: "2 powi binade x \<le> x" by simp
  from my(1) b(1) have "Q < 1 / x" by linarith
  then have "x < 1 / Q" using assms(1) pos by (simp add: field_simps)
  moreover have "binade x + 1 = - (bitlen m - 1)" by (simp add: e)
  then have "2 powi (binade x + 1) = 1 / Q"
    using k powi_neg [of "bitlen m - 1"] by (simp only: Q_def)
  ultimately have hi: "x < 2 powi (binade x + 1)" by simp
  from lo hi show ?thesis ..
qed

lemma binade_bounds: "0 < x \<Longrightarrow> 2 powi binade x \<le> x \<and> x < 2 powi (binade x + 1)"
  using binade_ge1 [of x] binade_lt1 [of x] by (cases "1 \<le> x") auto


lemma binade_mono: "0 < x \<Longrightarrow> x \<le> y \<Longrightarrow> binade x \<le> binade y"
proof (rule ccontr)
  assume x: "0 < x" and xy: "x \<le> y" and "\<not> binade x \<le> binade y"
  then have "binade y + 1 \<le> binade x" by simp
  then have "(2::rat) powi (binade y + 1) \<le> 2 powi binade x" by (rule power_int_increasing) simp
  also have "\<dots> \<le> x" using binade_bounds [OF x] by simp
  also have "\<dots> \<le> y" by (rule xy)
  also have "\<dots> < 2 powi (binade y + 1)" using binade_bounds [of y] x xy by simp
  finally show False by simp
qed

lemma roundEven_bounds: "of_int (roundEven x) \<le> x + 1 / 2 \<and> x - 1 / 2 \<le> of_int (roundEven x)"
  unfolding roundEven_def Let_def by (auto; linarith)

lemma roundEven_of_int [simp]: "roundEven (of_int n) = n"
  by (simp add: roundEven_def)

lemma roundEven_floor: "\<lfloor>x\<rfloor> \<le> roundEven x \<and> roundEven x \<le> \<lfloor>x\<rfloor> + 1"
  by (simp add: roundEven_def Let_def)

lemma roundEven_mono:
  assumes "x \<le> y"
  shows "roundEven x \<le> roundEven y"
proof (cases "\<lfloor>x\<rfloor> = \<lfloor>y\<rfloor>")
  case True
  from assms True have "x - of_int \<lfloor>x\<rfloor> \<le> y - of_int \<lfloor>y\<rfloor>" by simp
  then show ?thesis unfolding roundEven_def Let_def True by auto
next
  case False
  from assms have "\<lfloor>x\<rfloor> \<le> \<lfloor>y\<rfloor>" by (rule floor_mono)
  with False have "\<lfloor>x\<rfloor> + 1 \<le> \<lfloor>y\<rfloor>" by simp
  with roundEven_floor [of x] roundEven_floor [of y] show ?thesis by linarith
qed

lemma roundDouble_bounds:
  assumes "0 < x"
  shows "2 powi binade x \<le> roundDouble x \<and> roundDouble x \<le> 2 powi (binade x + 1)"
proof -
  define u :: rat where "u = 2 powi (binade x - 52)"
  have u: "0 < u" by (simp add: u_def)
  have r: "roundDouble x = of_int (roundEven (x / u)) * u"
    using assms by (simp add: roundDouble_def u_def Let_def)
  have p: "2 powi binade x = of_int (2 ^ 52) * u" "2 powi (binade x + 1) = of_int (2 ^ 53) * u"
    unfolding u_def by (simp_all add: power_int_diff power_int_add)
  from binade_bounds [OF assms] have "of_int (2 ^ 52) * u \<le> x" "x \<le> of_int (2 ^ 53) * u"
    unfolding p by simp_all
  then have "of_int (2 ^ 52) \<le> x / u" "x / u \<le> of_int (2 ^ 53)"
    using u by (simp_all add: field_simps)
  then have "roundEven (of_int (2 ^ 52)) \<le> roundEven (x / u)"
    "roundEven (x / u) \<le> roundEven (of_int (2 ^ 53))"
    by (simp_all only: roundEven_mono)
  then have "(of_int (2 ^ 52) :: rat) \<le> of_int (roundEven (x / u))"
    "(of_int (roundEven (x / u)) :: rat) \<le> of_int (2 ^ 53)"
    unfolding roundEven_of_int by (simp_all only: of_int_le_iff)
  then have "of_int (2 ^ 52) * u \<le> of_int (roundEven (x / u)) * u"
    "of_int (roundEven (x / u)) * u \<le> of_int (2 ^ 53) * u"
    using u by (simp_all only: mult_le_cancel_right_pos)
  then show ?thesis unfolding p r by simp
qed

lemma roundDouble_mono:
  assumes "x \<le> y"
  shows "roundDouble x \<le> roundDouble y"
proof (cases "0 < x")
  case False
  then have "roundDouble x = 0" by (simp add: roundDouble_def)
  moreover have "0 \<le> roundDouble y"
  proof (cases "0 < y")
    case True
    from roundDouble_bounds [OF True] have "2 powi binade y \<le> roundDouble y" by simp
    moreover have "(0::rat) < 2 powi binade y" by simp
    ultimately show ?thesis by linarith
  next
    case False
    then show ?thesis by (simp add: roundDouble_def)
  qed
  ultimately show ?thesis by simp
next
  case True
  with assms have y: "0 < y" by simp
  show ?thesis
  proof (cases "binade x = binade y")
    case same: True
    define u :: rat where "u = 2 powi (binade y - 52)"
    have u: "0 < u" by (simp add: u_def)
    from assms u have "x / u \<le> y / u" by (simp add: divide_right_mono)
    then have "roundEven (x / u) \<le> roundEven (y / u)" by (rule roundEven_mono)
    then have "(of_int (roundEven (x / u)) :: rat) \<le> of_int (roundEven (y / u))"
      by (simp only: of_int_le_iff)
    then have "of_int (roundEven (x / u)) * u \<le> of_int (roundEven (y / u)) * u"
      using u by (simp only: mult_le_cancel_right_pos)
    then show ?thesis using True y same by (simp add: roundDouble_def u_def Let_def)
  next
    case False
    with binade_mono [OF True assms] have "binade x + 1 \<le> binade y" by simp
    then have "(2::rat) powi (binade x + 1) \<le> 2 powi binade y"
      by (rule power_int_increasing) simp
    with roundDouble_bounds [OF True] roundDouble_bounds [OF y] show ?thesis by linarith
  qed
qed

lemma roundDouble_exact: "roundDouble 1 = 1" "roundDouble 100 = 100"
  by code_simp+

subsection \<open>Progress reporting\<close>

lemma percent_le: "0 < t \<Longrightarrow> r \<le> t \<Longrightarrow> percent r t \<le> 100"
proof -
  assume "0 < t" "r \<le> t"
  then have "(of_nat r :: rat) / of_nat t \<le> 1" by (simp add: divide_le_eq_1)
  then have "roundDouble (of_nat r / of_nat t) \<le> roundDouble 1" by (rule roundDouble_mono)
  then have "roundDouble (of_nat r / of_nat t) \<le> 1" by (simp only: roundDouble_exact)
  then have "roundDouble (of_nat r / of_nat t) * 100 \<le> 1 * 100" by (rule mult_right_mono) simp
  then have "roundDouble (roundDouble (of_nat r / of_nat t) * 100) \<le> roundDouble 100"
    by (intro roundDouble_mono) simp
  then show ?thesis unfolding percent_def by (simp only: roundDouble_exact)
qed

lemma statusUpdate_inv:
  assumes t: "0 < t" and r: "r \<le> t" and inv: "progressInv st"
  shows "progressInv (statusUpdate t r st)"
proof -
  obtain l logged where st: "st = (l, logged)" by (cases st)
  show ?thesis
  proof (cases "percent r t > of_int (l + 20)")
    case False
    with inv st show ?thesis by (simp add: statusUpdate_def)
  next
    case True
    define p where "p = \<lfloor>percent r t\<rfloor>"
    from True have lo: "l + 20 \<le> p" unfolding p_def by (simp add: le_floor_iff less_imp_le)
    from percent_le [OF t r] have hi: "p \<le> 100" unfolding p_def by (simp add: floor_le_iff)
    from True percent_le [OF t r] have "(of_int (l + 20) :: rat) < 100" by simp
    then have l80: "l + 20 < 100" by (simp only: of_int_less_numeral_iff)
    from inv st have i: "0 \<le> l" "20 * int (length logged) \<le> l"
      "\<forall>p \<in> set logged. 20 \<le> p \<and> p \<le> l" "sorted_wrt (\<lambda>a b. a + 20 \<le> b) logged"
      by (simp_all add: progressInv_def)
    from i(2) l80 have len: "length logged \<le> 3" by arith
    have "statusUpdate t r st = (p, logged @ [p])"
      using True st by (simp add: statusUpdate_def p_def)
    moreover have "progressInv (p, logged @ [p])"
      unfolding progressInv_def using lo hi i len
      by (auto simp: sorted_wrt_append)
    ultimately show ?thesis by simp
  qed
qed

lemma foldl_statusUpdate_inv:
  "0 < t \<Longrightarrow> (\<And>r. r \<in> set rs \<Longrightarrow> r \<le> t) \<Longrightarrow> progressInv st
   \<Longrightarrow> progressInv (foldl (\<lambda>st r. statusUpdate t r st) st rs)"
  by (induction rs arbitrary: st) (simp_all add: statusUpdate_inv)

lemma gap_bands: "sorted_wrt (\<lambda>a b. a + 20 \<le> b) (ps :: int list) \<Longrightarrow> distinct (map (\<lambda>p. p div 20) ps)"
proof (induction ps)
  case Nil
  then show ?case by simp
next
  case (Cons p ps)
  have "p div 20 \<noteq> q div 20" if "q \<in> set ps" for q
  proof -
    from Cons.prems that have "p + 20 \<le> q" by simp
    then have "p div 20 + 1 \<le> q div 20"
      by (metis div_add_self2 zdiv_mono1 zero_less_numeral zero_neq_numeral)
    then show ?thesis by simp
  qed
  with Cons show ?case by auto
qed

lemma statusUpdate_lastLogged:
  "fst st = lastLogged (snd st)
   \<Longrightarrow> fst (statusUpdate t r st) = lastLogged (snd (statusUpdate t r st))"
  by (cases st) (simp add: statusUpdate_def lastLogged_def)

lemma foldl_statusUpdate_lastLogged:
  "fst st = lastLogged (snd st)
   \<Longrightarrow> fst (foldl (\<lambda>st r. statusUpdate t r st) st rs)
       = lastLogged (snd (foldl (\<lambda>st r. statusUpdate t r st) st rs))"
  by (induction rs arbitrary: st) (simp_all add: statusUpdate_lastLogged)

lemma progressLog_Nil: "progressLog t [] = []"
  by (simp add: progressLog_def)

lemma progressLog_snoc:
  "progressLog t (rs @ [r]) =
     (if of_int (lastLogged (progressLog t rs) + 20) < percent r t
      then progressLog t rs @ [\<lfloor>percent r t\<rfloor>] else progressLog t rs)"
proof -
  define st where "st = foldl (\<lambda>st r. statusUpdate t r st) (0, []) rs"
  have "fst st = lastLogged (snd st)"
    unfolding st_def by (rule foldl_statusUpdate_lastLogged) (simp add: lastLogged_def)
  moreover have "progressLog t (rs @ [r]) = snd (statusUpdate t r st)"
    by (simp add: progressLog_def st_def)
  moreover have "progressLog t rs = snd st" by (simp add: progressLog_def st_def)
  ultimately show ?thesis by (cases st) (simp add: statusUpdate_def)
qed

lemma progressLog_bounds:
  assumes "0 < t" and "\<forall>r \<in> set rs. r \<le> t"
  shows "length (progressLog t rs) \<le> 4"
    and "\<forall>p \<in> set (progressLog t rs). 20 \<le> p \<and> p \<le> 100"
    and "sorted_wrt (\<lambda>a b. a + 20 \<le> b) (progressLog t rs)"
    and "distinct (map (\<lambda>p. p div 20) (progressLog t rs))"
proof -
  have "progressInv (0, [])" by (simp add: progressInv_def)
  with assms have "progressInv (foldl (\<lambda>st r. statusUpdate t r st) (0, []) rs)"
    by (intro foldl_statusUpdate_inv) auto
  then show i: "length (progressLog t rs) \<le> 4"
       "\<forall>p \<in> set (progressLog t rs). 20 \<le> p \<and> p \<le> 100"
       "sorted_wrt (\<lambda>a b. a + 20 \<le> b) (progressLog t rs)"
    by (auto simp: progressInv_def progressLog_def split: prod.splits)
  from gap_bands [OF i(3)] show "distinct (map (\<lambda>p. p div 20) (progressLog t rs))" .
qed

text \<open>The rounding shows: 29 of 100 lines are \<open>28.999999999999996\<close> percent, logged as
  28, and 55 of 100 lines are \<open>55.00000000000001\<close> percent, more than 55.\<close>

lemma percent_rounded:
  "percent 29 100 = 8162774324609023 / 281474976710656"
  "percent 55 100 = 7740561859543041 / 140737488355328"
  by code_simp+

subsection \<open>Errors, calls and loops\<close>

lemma bindE_Inr: "bindE m f = Inr y \<longleftrightarrow> (\<exists>x. m = Inr x \<and> f x = Inr y)"
  by (cases m) (simp_all add: bindE_def)

lemma bindE_Inl_left [simp]: "bindE (Inl e) f = Inl e"
  by (simp add: bindE_def)

lemma bindE_Inr_left [simp]: "bindE (Inr x) f = f x"
  by (simp add: bindE_def)

lemma exec_Inr: "exec fails c st = Inr st' \<longleftrightarrow> \<not> fails c \<and> st' = st\<lparr>calls := calls st @ [c]\<rparr>"
  by (auto simp: exec_def)

lemma calls_reportProgress [simp]: "calls (reportProgress n r st) = calls st"
  by (simp add: reportProgress_def split: prod.splits)

lemma grows_refl [simp]: "grows P st st"
  by (simp add: grows_def)

lemma grows_trans: "grows P s1 s2 \<Longrightarrow> grows P s2 s3 \<Longrightarrow> grows P s1 s3"
  unfolding grows_def by (metis append_assoc set_append Un_iff)

lemma grows_calls_eq: "calls st' = calls st \<Longrightarrow> grows P st st'"
  by (simp add: grows_def)

lemma grows_left_eq: "calls s1 = calls s0 \<Longrightarrow> grows P s1 s2 \<Longrightarrow> grows P s0 s2"
  by (simp add: grows_def)

lemma grows_exec: "exec fails c st = Inr st' \<Longrightarrow> P c \<Longrightarrow> grows P st st'"
  by (auto simp: exec_Inr grows_def)

lemma grows_forEachE:
  "(\<And>x s s'. x \<in> set xs \<Longrightarrow> f x s = Inr s' \<Longrightarrow> grows P s s')
   \<Longrightarrow> forEachE f xs st = Inr st' \<Longrightarrow> grows P st st'"
proof (induction xs arbitrary: st)
  case Nil
  then show ?case by simp
next
  case (Cons x xs)
  from Cons.prems(2) obtain s1 where 1: "f x st = Inr s1" and 2: "forEachE f xs s1 = Inr st'"
    by (auto split: sum.splits)
  have "grows P st s1" by (rule Cons.prems(1) [OF _ 1]) simp
  moreover have "grows P s1 st'"
  proof (rule Cons.IH [OF _ 2])
    fix y s s' assume "y \<in> set xs" and "f y s = Inr s'"
    then show "grows P s s'" by (intro Cons.prems(1)) simp_all
  qed
  ultimately show ?case by (rule grows_trans)
qed

lemma grows_forEachE_exec:
  "(\<And>x. x \<in> set xs \<Longrightarrow> P (g x))
   \<Longrightarrow> forEachE (\<lambda>x. exec fails (g x)) xs st = Inr st' \<Longrightarrow> grows P st st'"
  by (erule grows_forEachE [rotated]) (auto intro: grows_exec)



subsection \<open>The steps of the four loops\<close>

lemma bindE_InrE:
  assumes "bindE m f = Inr y"
  obtains x where "m = Inr x" and "f x = Inr y"
  using assms by (auto simp: bindE_Inr)

lemma grows_if_exec:
  "(if b then exec fails c st else Inr st) = Inr st' \<Longrightarrow> P c \<Longrightarrow> grows P st st'"
  by (cases b) (simp_all add: grows_exec)

lemma burnBlockStep_Some:
  "parseBurnBlockMessage e (payload ev) = Some b \<Longrightarrow>
   burnBlockStep e t ev st =
     bindE (if length (rewards b) > 0
            then exec (dbFails e) (UpdateBurnchainRewards (burn_block_hash b) (burn_block_height b) (rewards b)) st
            else Inr st) (\<lambda>st1.
     bindE (if length (slotHolders b) > 0
            then exec (dbFails e) (UpdateBurnchainRewardSlotHolders (burn_block_hash b) (burn_block_height b) (slotHolders b)) st1
            else Inr st1) (\<lambda>st2.
     Inr (reportProgress (tsvLineCount t) (readLineCount ev) st2)))"
  by (simp add: burnBlockStep_def)

lemma burnBlockStep_None:
  "parseBurnBlockMessage e (payload ev) = None \<Longrightarrow> burnBlockStep e t ev st = Inl ParseError"
  by (simp add: burnBlockStep_def)

lemma burnBlockStep_grows:
  "burnBlockStep e t ev st = Inr st' \<Longrightarrow> grows (insertInto burnBlockTables) st st'"
proof -
  assume a: "burnBlockStep e t ev st = Inr st'"
  then obtain b where b: "parseBurnBlockMessage e (payload ev) = Some b"
    by (cases "parseBurnBlockMessage e (payload ev)") (simp_all add: burnBlockStep_None)
  from a obtain s1 s2 where
    1: "(if length (rewards b) > 0
         then exec (dbFails e) (UpdateBurnchainRewards (burn_block_hash b) (burn_block_height b) (rewards b)) st
         else Inr st) = Inr s1"
    and 2: "(if length (slotHolders b) > 0
         then exec (dbFails e) (UpdateBurnchainRewardSlotHolders (burn_block_hash b) (burn_block_height b) (slotHolders b)) s1
         else Inr s1) = Inr s2"
    and 3: "st' = reportProgress (tsvLineCount t) (readLineCount ev) s2"
    unfolding burnBlockStep_Some [OF b] by (elim bindE_InrE) simp
  from 1 have "grows (insertInto burnBlockTables) st s1"
    by (rule grows_if_exec) (simp add: insertInto_def burnBlockTables_def)
  moreover from 2 have "grows (insertInto burnBlockTables) s1 s2"
    by (rule grows_if_exec) (simp add: insertInto_def burnBlockTables_def)
  moreover from 3 have "grows (insertInto burnBlockTables) s2 st'"
    by (simp add: grows_calls_eq)
  ultimately show ?thesis by (blast intro: grows_trans)
qed

lemma attachmentStep_grows:
  "attachmentStep e t ev st = Inr st' \<Longrightarrow> grows (insertInto attachmentTables) st st'"
proof -
  assume a: "attachmentStep e t ev st = Inr st'"
  then obtain sds where b: "parseAttachmentMessage e (payload ev) = Some sds"
    by (auto simp: attachmentStep_def split: option.splits)
  from a b obtain s1 where
    1: "forEachE (\<lambda>subdomain. exec (dbFails e)
           (UpdateBatchSubdomains (subdomainBlock subdomain) [subdomain])) sds st = Inr s1"
    and 2: "st' = reportProgress (tsvLineCount t) (readLineCount ev) s1"
    by (auto simp: attachmentStep_def bindE_Inr)
  from 1 have "grows (insertInto attachmentTables) st s1"
    by (rule grows_forEachE_exec [rotated]) (simp add: insertInto_def attachmentTables_def)
  moreover from 2 have "grows (insertInto attachmentTables) s1 st'"
    by (simp add: grows_calls_eq)
  ultimately show ?thesis by (rule grows_trans)
qed

lemma rawEventStep_grows:
  "rawEventStep e t ev st = Inr st' \<Longrightarrow> grows (insertInto rawEventTables) st st'"
proof -
  assume "rawEventStep e t ev st = Inr st'"
  then obtain s1 where
    1: "exec (dbFails e) (StoreRawEventRequest1 (path ev) (payload ev)) st = Inr s1"
    and 2: "st' = reportProgress (tsvLineCount t) (readLineCount ev) s1"
    by (auto simp: rawEventStep_def bindE_Inr)
  from 1 have "grows (insertInto rawEventTables) st s1"
    by (rule grows_exec) (simp add: insertInto_def rawEventTables_def)
  moreover from 2 have "grows (insertInto rawEventTables) s1 st'"
    by (simp add: grows_calls_eq)
  ultimately show ?thesis by (rule grows_trans)
qed

lemma insertInto_newBlockTables:
  "insertInto newBlockTables (UpdateBatchStxEvents t es)"
  "insertInto newBlockTables (UpdateBatchSmartContractEvent t ls)"
  "insertInto newBlockTables (UpdateStxLockEvent t l)"
  "insertInto newBlockTables (UpdateFtEvent t f)"
  "insertInto newBlockTables (UpdateNftEvent t n)"
  "insertInto newBlockTables (UpdateSmartContract t c)"
  "insertInto newBlockTables (UpdateNames t bn)"
  "insertInto newBlockTables (UpdateNamespaces t bns)"
  "insertInto newBlockTables (UpdateBlock b)"
  "insertInto newBlockTables (InsertMicroblock ms)"
  "insertInto newBlockTables (UpdateTxBatch ts)"
  "insertInto newBlockTables (InsertPrincipalStxTxsBatched rs)"
  by (simp_all add: insertInto_def newBlockTables_def)

lemma pushTx_grows:
  "pushTx e entries st = Inr st' \<Longrightarrow> grows (insertInto newBlockTables) st st'"
proof -
  assume a: "pushTx e entries st = Inr st'"
  obtain batches buffer where p: "push (batchIterateTx e) 1000 (dbTxBatchInserter st) entries = (batches, buffer)"
    by (cases "push (batchIterateTx e) 1000 (dbTxBatchInserter st) entries")
  with a have "forEachE (\<lambda>batch. exec (dbFails e) (UpdateTxBatch batch)) batches
                 (st\<lparr>dbTxBatchInserter := buffer\<rparr>) = Inr st'"
    by (simp add: pushTx_def)
  then have "grows (insertInto newBlockTables) (st\<lparr>dbTxBatchInserter := buffer\<rparr>) st'"
    by (rule grows_forEachE_exec [rotated]) (rule insertInto_newBlockTables)
  then show ?thesis by (rule grows_left_eq [rotated]) simp
qed

lemma pushPrincipalStxTxs_grows:
  "pushPrincipalStxTxs e entries st = Inr st' \<Longrightarrow> grows (insertInto newBlockTables) st st'"
proof -
  assume a: "pushPrincipalStxTxs e entries st = Inr st'"
  obtain batches buffer where
    p: "push (batchIteratePrincipal e) 1000 (dbPrincipalStxTxBatchInserter st) entries = (batches, buffer)"
    by (cases "push (batchIteratePrincipal e) 1000 (dbPrincipalStxTxBatchInserter st) entries")
  with a have "forEachE (\<lambda>batch. exec (dbFails e) (InsertPrincipalStxTxsBatched batch)) batches
                 (st\<lparr>dbPrincipalStxTxBatchInserter := buffer\<rparr>) = Inr st'"
    by (simp add: pushPrincipalStxTxs_def)
  then have "grows (insertInto newBlockTables) (st\<lparr>dbPrincipalStxTxBatchInserter := buffer\<rparr>) st'"
    by (rule grows_forEachE_exec [rotated]) (rule insertInto_newBlockTables)
  then show ?thesis by (rule grows_left_eq [rotated]) simp
qed

lemma grows_bindE:
  assumes "bindE m g = Inr st'"
    and "\<And>s1. m = Inr s1 \<Longrightarrow> grows P st s1"
    and "\<And>s1. g s1 = Inr st' \<Longrightarrow> grows P s1 st'"
  shows "grows P st st'"
proof -
  from assms(1) obtain s1 where "m = Inr s1" and "g s1 = Inr st'" by (rule bindE_InrE)
  then show ?thesis using assms(2,3) by (blast intro: grows_trans)
qed

lemma txEntryStep_grows:
  "txEntryStep e entry st = Inr st' \<Longrightarrow> grows (insertInto newBlockTables) st st'"
  unfolding txEntryStep_def
  apply (erule grows_bindE, erule pushTx_grows)
  apply (erule grows_bindE, erule grows_exec, rule insertInto_newBlockTables)
  apply (erule grows_bindE, erule pushPrincipalStxTxs_grows)
  apply (erule grows_bindE, erule grows_exec, rule insertInto_newBlockTables)
  apply (erule grows_bindE, erule grows_forEachE_exec [rotated], rule insertInto_newBlockTables)
  apply (erule grows_bindE, erule grows_forEachE_exec [rotated], rule insertInto_newBlockTables)
  apply (erule grows_bindE, erule grows_forEachE_exec [rotated], rule insertInto_newBlockTables)
  apply (erule grows_bindE, erule grows_forEachE_exec [rotated], rule insertInto_newBlockTables)
  apply (erule grows_bindE, erule grows_forEachE_exec [rotated], rule insertInto_newBlockTables)
  apply (erule grows_forEachE_exec [rotated], rule insertInto_newBlockTables)
  done

lemma newBlockStep_grows:
  "newBlockStep e t ev st = Inr st' \<Longrightarrow> grows (insertInto newBlockTables) st st'"
proof -
  let ?G = "grows (insertInto newBlockTables)"
  let ?st0 = "st\<lparr>blocksInserted := blocksInserted st + 1\<rparr>"
  assume a: "newBlockStep e t ev st = Inr st'"
  then obtain d where d: "parseNewBlockMessage e (payload ev) = Some d"
    by (auto simp: newBlockStep_def Let_def split: option.splits)
  from a d obtain s1 s2 s3 where
    1: "exec (dbFails e) (UpdateBlock (block d)) ?st0 = Inr s1"
    and 2: "(if length (microblocks d) > 0
             then exec (dbFails e) (InsertMicroblock (microblocks d)) s1 else Inr s1) = Inr s2"
    and 3: "(if length (txs d) > 0
             then forEachE (txEntryStep e) (txs d) s2 else Inr s2) = Inr s3"
    and 4: "st' = reportProgress (tsvLineCount t) (readLineCount ev) s3"
    unfolding newBlockStep_def Let_def by (auto simp: bindE_Inr)
  have "?G ?st0 s1" using 1 by (rule grows_exec) (rule insertInto_newBlockTables)
  then have g1: "?G st s1" by (rule grows_left_eq [rotated]) simp
  have g2: "?G s1 s2" using 2
    by (auto split: if_splits intro!: grows_exec simp: insertInto_def newBlockTables_def)
  have g3: "?G s2 s3"
  proof (cases "length (txs d) > 0")
    case True
    with 3 have "forEachE (txEntryStep e) (txs d) s2 = Inr s3" by simp
    then show ?thesis by (rule grows_forEachE [rotated]) (rule txEntryStep_grows)
  next
    case False
    with 3 show ?thesis by simp
  qed
  have g4: "?G s3 st'" using 4 by (simp add: grows_calls_eq)
  from g1 g2 g3 g4 show ?thesis by (blast intro: grows_trans)
qed

lemma newBlockAfterLoop_grows:
  "newBlockAfterLoop e st = Inr st' \<Longrightarrow> grows (insertInto newBlockTables) st st'"
proof -
  let ?G = "grows (insertInto newBlockTables)"
  assume "newBlockAfterLoop e st = Inr st'"
  then obtain s1 s2 where
    1: "forEachE (\<lambda>batch. exec (dbFails e) (UpdateTxBatch batch))
              (fst (flush (dbTxBatchInserter st)))
              (st\<lparr>dbTxBatchInserter := snd (flush (dbTxBatchInserter st))\<rparr>) = Inr s1"
    and 2: "forEachE (\<lambda>batch. exec (dbFails e) (InsertPrincipalStxTxsBatched batch))
              (fst (flush (dbPrincipalStxTxBatchInserter s1)))
              (s1\<lparr>dbPrincipalStxTxBatchInserter :=
                     snd (flush (dbPrincipalStxTxBatchInserter s1))\<rparr>) = Inr s2"
    and 3: "st' = s2\<lparr>logged := logged s2 @ [100]\<rparr>"
    unfolding newBlockAfterLoop_def bindE_Inr by auto
  from 1 have "?G (st\<lparr>dbTxBatchInserter := snd (flush (dbTxBatchInserter st))\<rparr>) s1"
    by (rule grows_forEachE_exec [rotated]) (rule insertInto_newBlockTables)
  then have g1: "?G st s1" by (rule grows_left_eq [rotated]) simp
  from 2 have "?G (s1\<lparr>dbPrincipalStxTxBatchInserter :=
                     snd (flush (dbPrincipalStxTxBatchInserter s1))\<rparr>) s2"
    by (rule grows_forEachE_exec [rotated]) (rule insertInto_newBlockTables)
  then have g2: "?G s1 s2" by (rule grows_left_eq [rotated]) simp
  have g3: "?G s2 st'" using 3 by (simp add: grows_calls_eq)
  from g1 g2 g3 show ?thesis by (blast intro: grows_trans)
qed


subsection \<open>The callback, the transaction and the phase\<close>

lemma phaseCallback_Inr:
  assumes cb: "phaseCallback fails tables step afterLoop stream st0 = Inr cs"
    and st0: "calls st0 = []"
    and step: "\<And>ev s s'. step ev s = Inr s' \<Longrightarrow> grows P s s'"
    and after: "\<And>s s'. afterLoop s = Inr s' \<Longrightarrow> grows P s s'"
  shows "\<exists>ins. cs = ToggleTableIndexes tables False # ins @ [ToggleTableIndexes tables True]
               \<and> (\<forall>c \<in> set ins. P c)"
proof -
  from cb obtain s1 s2 s3 s4 where
    1: "exec fails (ToggleTableIndexes tables False) st0 = Inr s1"
    and 2: "forEachE step stream s1 = Inr s2"
    and 3: "afterLoop s2 = Inr s3"
    and 4: "exec fails (ToggleTableIndexes tables True) s3 = Inr s4"
    and 5: "cs = calls s4"
    unfolding phaseCallback_def by (elim bindE_InrE) simp
  from 1 st0 have c1: "calls s1 = [ToggleTableIndexes tables False]" by (simp add: exec_Inr)
  from 2 have "grows P s1 s2" by (rule grows_forEachE [rotated]) (rule step)
  moreover from 3 have "grows P s2 s3" by (rule after)
  ultimately have "grows P s1 s3" by (rule grows_trans)
  then obtain ins where i: "calls s3 = calls s1 @ ins" "\<forall>c \<in> set ins. P c"
    by (auto simp: grows_def)
  from 4 have "calls s4 = calls s3 @ [ToggleTableIndexes tables True]" by (simp add: exec_Inr)
  with 5 c1 i show ?thesis by simp
qed


lemma reindexTables_shape:
  "reindexTables fails ts db = (oe, db') \<Longrightarrow>
   \<exists>k. k \<le> length ts \<and> db' = db @ map Reindex (take k ts) \<and> (oe = None \<longrightarrow> k = length ts)"
proof (induction ts arbitrary: db)
  case Nil
  then show ?case by simp
next
  case (Cons t ts)
  show ?case
  proof (cases "fails (Reindex t)")
    case True
    with Cons.prems have "oe = Some StorageError" "db' = db" by simp_all
    then show ?thesis by (intro exI [of _ 0]) simp
  next
    case False
    with Cons.prems have "reindexTables fails ts (db @ [Reindex t]) = (oe, db')" by simp
    from Cons.IH [OF this] obtain k where
      "k \<le> length ts" "db' = (db @ [Reindex t]) @ map Reindex (take k ts)"
      "oe = None \<longrightarrow> k = length ts" by blast
    then show ?thesis by (intro exI [of _ "Suc k"]) simp
  qed
qed

lemma phase_cases:
  assumes "phase fails tables cb db = (oe, db')"
  shows "(\<exists>err. cb = Inl err \<and> oe = Some err \<and> db' = db)
       \<or> (\<exists>cs k. cb = Inr cs \<and> k \<le> length tables
             \<and> db' = db @ [Begin] @ cs @ [Commit] @ map Reindex (take k tables)
             \<and> (oe = None \<longrightarrow> k = length tables))"
proof (cases cb)
  case (Inl err)
  with assms show ?thesis by (simp add: phase_def sql_begin_def)
next
  case (Inr cs)
  with assms have "reindexTables fails tables (db @ [Begin] @ cs @ [Commit]) = (oe, db')"
    by (simp add: phase_def sql_begin_def)
  from reindexTables_shape [OF this] Inr show ?thesis by auto
qed

lemma importPhase_eq:
  "importPhase e t p ph db = phase (dbFails e) (phaseTables ph) (callbackOf e t p ph) db"
  by (cases ph)
    (simp_all add: insertNewBurnBlockEvents_def insertNewAttachmentEvents_def
      insertRawEvents_def insertNewBlockEvents_def)

lemma callbackOf_Inr:
  assumes "callbackOf e t p ph = Inr cs"
  shows "\<exists>ins. cs = ToggleTableIndexes (phaseTables ph) False # ins
                     @ [ToggleTableIndexes (phaseTables ph) True]
               \<and> (\<forall>c \<in> set ins. insertInto (phaseTables ph) c)"
proof (cases ph)
  case BurnBlocks
  with assms show ?thesis
    unfolding BurnBlocks callbackOf.simps phaseTables.simps burnBlockCallback_def
    by (elim phaseCallback_Inr) (simp_all add: initialLoopState_def burnBlockStep_grows)
next
  case Attachments
  with assms show ?thesis
    unfolding Attachments callbackOf.simps phaseTables.simps attachmentCallback_def
    by (elim phaseCallback_Inr) (simp_all add: initialLoopState_def attachmentStep_grows)
next
  case RawEvents
  with assms show ?thesis
    unfolding RawEvents callbackOf.simps phaseTables.simps rawEventCallback_def
    by (elim phaseCallback_Inr) (simp_all add: initialLoopState_def rawEventStep_grows)
next
  case NewBlocks
  with assms show ?thesis
    unfolding NewBlocks callbackOf.simps phaseTables.simps newBlockCallback_def
    by (elim phaseCallback_Inr)
      (simp_all add: initialNewBlockState_def newBlockStep_grows newBlockAfterLoop_grows)
qed



subsection \<open>The burn-block step\<close>

lemma burnBlockStep_calls:
  assumes b: "parseBurnBlockMessage e (payload ev) = Some b"
    and r: "burnBlockStep e t ev st = Inr st'"
  shows "calls st' = calls st
     @ (if rewards b = [] then []
        else [UpdateBurnchainRewards (burn_block_hash b) (burn_block_height b) (rewards b)])
     @ (if slotHolders b = [] then []
        else [UpdateBurnchainRewardSlotHolders (burn_block_hash b) (burn_block_height b)
                (slotHolders b)])"
proof -
  from r obtain s1 s2 where
    1: "(if length (rewards b) > 0
         then exec (dbFails e) (UpdateBurnchainRewards (burn_block_hash b) (burn_block_height b) (rewards b)) st
         else Inr st) = Inr s1"
    and 2: "(if length (slotHolders b) > 0
         then exec (dbFails e) (UpdateBurnchainRewardSlotHolders (burn_block_hash b) (burn_block_height b) (slotHolders b)) s1
         else Inr s1) = Inr s2"
    and 3: "st' = reportProgress (tsvLineCount t) (readLineCount ev) s2"
    unfolding burnBlockStep_Some [OF b] by (elim bindE_InrE) simp
  from 1 have "calls s1 = calls st @ (if rewards b = [] then []
        else [UpdateBurnchainRewards (burn_block_hash b) (burn_block_height b) (rewards b)])"
    by (cases "rewards b = []") (auto simp: exec_Inr)
  moreover from 2 have "calls s2 = calls s1 @ (if slotHolders b = [] then []
        else [UpdateBurnchainRewardSlotHolders (burn_block_hash b) (burn_block_height b)
                (slotHolders b)])"
    by (cases "slotHolders b = []") (auto simp: exec_Inr)
  ultimately show ?thesis using 3 by simp
qed

text \<open>
  C10. In the burn-blocks phase, the step for a record whose parsed message has an empty
  rewards list makes no call on \<open>burnchain_rewards\<close>, and the step for a record with an
  empty slot-holders list makes no call on \<open>reward_slot_holders\<close>; the calls of a step
  are at most the rewards call and then the slot-holders call, each present only for a
  list that is not empty. A record with both lists empty makes no call at all, and its step
  returns.
\<close>

theorem burnBlockStep_skips_empty_lists:
  assumes "parseBurnBlockMessage e (payload ev) = Some b"
  shows "(rewards b = [] \<and> slotHolders b = [] \<longrightarrow>
            burnBlockStep e t ev st
              = Inr (reportProgress (tsvLineCount t) (readLineCount ev) st))
       \<and> (\<forall>st'. burnBlockStep e t ev st = Inr st' \<longrightarrow>
            (\<exists>cs. calls st' = calls st @ cs
               \<and> cs = (if rewards b = [] then []
                       else [UpdateBurnchainRewards (burn_block_hash b) (burn_block_height b)
                               (rewards b)])
                    @ (if slotHolders b = [] then []
                       else [UpdateBurnchainRewardSlotHolders (burn_block_hash b)
                               (burn_block_height b) (slotHolders b)])
               \<and> (rewards b = [] \<longrightarrow>
                     (\<forall>c \<in> set cs. ''burnchain_rewards'' \<notin> set (tablesOf c)))
               \<and> (slotHolders b = [] \<longrightarrow>
                     (\<forall>c \<in> set cs. ''reward_slot_holders'' \<notin> set (tablesOf c)))))"
proof -
  have "burnBlockStep e t ev st = Inr (reportProgress (tsvLineCount t) (readLineCount ev) st)"
    if "rewards b = []" "slotHolders b = []"
    using that by (simp add: burnBlockStep_Some [OF assms])
  moreover have "\<exists>cs. calls st' = calls st @ cs
               \<and> cs = (if rewards b = [] then []
                       else [UpdateBurnchainRewards (burn_block_hash b) (burn_block_height b)
                               (rewards b)])
                    @ (if slotHolders b = [] then []
                       else [UpdateBurnchainRewardSlotHolders (burn_block_hash b)
                               (burn_block_height b) (slotHolders b)])
               \<and> (rewards b = [] \<longrightarrow>
                     (\<forall>c \<in> set cs. ''burnchain_rewards'' \<notin> set (tablesOf c)))
               \<and> (slotHolders b = [] \<longrightarrow>
                     (\<forall>c \<in> set cs. ''reward_slot_holders'' \<notin> set (tablesOf c)))"
    if "burnBlockStep e t ev st = Inr st'" for st'
    using burnBlockStep_calls [OF assms that] by simp
  ultimately show ?thesis by blast
qed

text \<open>The sample record: both lists are empty, the step makes no call.\<close>

theorem burnBlockStep_skips_empty_lists_witness:
  "parseBurnBlockMessage sampleEnv (payload sampleRecord) = Some sampleBurnBlock
   \<and> rewards sampleBurnBlock = [] \<and> slotHolders sampleBurnBlock = []
   \<and> calls (reportProgress 1 1 initialLoopState) = []
   \<and> burnBlockStep sampleEnv sampleEntityData sampleRecord initialLoopState
       = Inr (reportProgress 1 1 initialLoopState)"
proof -
  have p: "parseBurnBlockMessage sampleEnv (payload sampleRecord) = Some sampleBurnBlock"
    by (simp add: sampleEnv_def sampleRecord_def)
  have r: "rewards sampleBurnBlock = []" "slotHolders sampleBurnBlock = []"
    by (simp_all add: sampleBurnBlock_def)
  from burnBlockStep_skips_empty_lists [OF p, where t = sampleEntityData and st = initialLoopState] r
  have "burnBlockStep sampleEnv sampleEntityData sampleRecord initialLoopState
       = Inr (reportProgress (tsvLineCount sampleEntityData) (readLineCount sampleRecord)
                initialLoopState)"
    by blast
  then show ?thesis using p r
    by (simp add: sampleEntityData_def sampleRecord_def initialLoopState_def)
qed


subsection \<open>Atomicity of a phase\<close>

lemma importPhase_shape:
  assumes "importPhase e t p ph db = (oe, db')"
  shows "(oe \<noteq> None \<and> db' = db)
       \<or> (\<exists>ins k. k \<le> length (phaseTables ph)
             \<and> db' = db @ transactionLog (phaseTables ph) ins
                       @ map Reindex (take k (phaseTables ph))
             \<and> (oe = None \<longrightarrow> k = length (phaseTables ph))
             \<and> (\<forall>c \<in> set ins. insertInto (phaseTables ph) c))"
proof -
  from assms have "phase (dbFails e) (phaseTables ph) (callbackOf e t p ph) db = (oe, db')"
    by (simp add: importPhase_eq)
  from phase_cases [OF this] show ?thesis
  proof
    assume "\<exists>err. callbackOf e t p ph = Inl err \<and> oe = Some err \<and> db' = db"
    then show ?thesis by auto
  next
    assume "\<exists>cs k. callbackOf e t p ph = Inr cs \<and> k \<le> length (phaseTables ph)
             \<and> db' = db @ [Begin] @ cs @ [Commit] @ map Reindex (take k (phaseTables ph))
             \<and> (oe = None \<longrightarrow> k = length (phaseTables ph))"
    then obtain cs k where cb: "callbackOf e t p ph = Inr cs"
      and k: "k \<le> length (phaseTables ph)"
      and db': "db' = db @ [Begin] @ cs @ [Commit] @ map Reindex (take k (phaseTables ph))"
      and full: "oe = None \<longrightarrow> k = length (phaseTables ph)"
      by blast
    from callbackOf_Inr [OF cb] obtain ins where
      cs: "cs = ToggleTableIndexes (phaseTables ph) False # ins
                 @ [ToggleTableIndexes (phaseTables ph) True]"
      and ins: "\<forall>c \<in> set ins. insertInto (phaseTables ph) c"
      by blast
    from db' cs have "db' = db @ transactionLog (phaseTables ph) ins
                       @ map Reindex (take k (phaseTables ph))"
      by (simp add: transactionLog_def)
    with k full ins show ?thesis by blast
  qed
qed






subsection \<open>The order of the phases\<close>

lemma partOfI:
  "snd r = db @ new \<Longrightarrow> new @ rest = full \<Longrightarrow> (fst r = None \<Longrightarrow> rest = [])
   \<Longrightarrow> partOf db full r"
  unfolding partOf_def
  apply (rule exI [of _ new])
  apply (rule exI [of _ rest])
  apply simp
  done

lemma importPhase_partOf:
  "\<exists>ins. (\<forall>c \<in> set ins. insertInto (phaseTables ph) c)
        \<and> partOf db (phaseLog (phaseTables ph) ins) (importPhase e t p ph db)"
proof -
  obtain oe db' where r: "importPhase e t p ph db = (oe, db')"
    by (cases "importPhase e t p ph db")
  from importPhase_shape [OF r] show ?thesis
  proof
    assume "oe \<noteq> None \<and> db' = db"
    then have "partOf db (phaseLog (phaseTables ph) []) (importPhase e t p ph db)"
      unfolding r by (intro partOfI [of _ _ "[]" "phaseLog (phaseTables ph) []"]) auto
    then show ?thesis by (intro exI [of _ "[]"]) simp
  next
    assume "\<exists>ins k. k \<le> length (phaseTables ph)
             \<and> db' = db @ transactionLog (phaseTables ph) ins
                       @ map Reindex (take k (phaseTables ph))
             \<and> (oe = None \<longrightarrow> k = length (phaseTables ph))
             \<and> (\<forall>c \<in> set ins. insertInto (phaseTables ph) c)"
    then obtain ins k where k: "k \<le> length (phaseTables ph)"
      and db': "db' = db @ transactionLog (phaseTables ph) ins
                       @ map Reindex (take k (phaseTables ph))"
      and full: "oe = None \<longrightarrow> k = length (phaseTables ph)"
      and ins: "\<forall>c \<in> set ins. insertInto (phaseTables ph) c"
      by blast
    have "(transactionLog (phaseTables ph) ins @ map Reindex (take k (phaseTables ph)))
            @ map Reindex (drop k (phaseTables ph)) = phaseLog (phaseTables ph) ins"
      by (simp add: phaseLog_def flip: map_append)
    moreover have "oe = None \<longrightarrow> map Reindex (drop k (phaseTables ph)) = []"
      using full by simp
    ultimately have "partOf db (phaseLog (phaseTables ph) ins) (importPhase e t p ph db)"
      unfolding r using db'
      by (intro partOfI [of _ _ "transactionLog (phaseTables ph) ins
            @ map Reindex (take k (phaseTables ph))" "map Reindex (drop k (phaseTables ph))"])
        auto
    with ins show ?thesis by blast
  qed
qed

lemma thenPhase_partOf:
  assumes "partOf db full1 r" and "partOf (snd r) full2 (f (snd r))"
  shows "partOf db (full1 @ full2) (thenPhase r f)"
proof (cases "fst r")
  case None
  then have t: "thenPhase r f = f (snd r)" by (cases r) (simp add: thenPhase_def)
  from assms(1) None have 1: "snd r = db @ full1" by (auto simp: partOf_def)
  from assms(2) obtain new rest where
    "snd (f (snd r)) = snd r @ new" "new @ rest = full2" "fst (f (snd r)) = None \<longrightarrow> rest = []"
    by (auto simp: partOf_def)
  with 1 show ?thesis unfolding t
    by (intro partOfI [of _ _ "full1 @ new" rest]) auto
next
  case (Some err)
  then have t: "thenPhase r f = r" by (cases r) (simp add: thenPhase_def)
  from assms(1) obtain new rest where "snd r = db @ new" "new @ rest = full1"
    by (auto simp: partOf_def)
  with Some show ?thesis unfolding t
    by (intro partOfI [of _ _ new "rest @ full2"]) auto
qed

lemma runPhases_partOf:
  "\<exists>i1 i2 i3 i4.
     (\<forall>c \<in> set i1. insertInto burnBlockTables c)
   \<and> (\<forall>c \<in> set i2. insertInto attachmentTables c)
   \<and> (\<forall>c \<in> set i3. insertInto rawEventTables c)
   \<and> (\<forall>c \<in> set i4. insertInto newBlockTables c)
   \<and> partOf db (phaseLog burnBlockTables i1 @ phaseLog attachmentTables i2
                 @ phaseLog rawEventTables i3 @ phaseLog newBlockTables i4)
        (runPhases e t p db)"
proof -
  define r1 where "r1 = insertNewBurnBlockEvents e t p db"
  define r2 where "r2 = thenPhase r1 (insertNewAttachmentEvents e t p)"
  define r3 where "r3 = thenPhase r2 (insertRawEvents e t p)"
  from importPhase_partOf [of BurnBlocks db e t p] obtain i1 where
    i1: "\<forall>c \<in> set i1. insertInto burnBlockTables c"
    and p1: "partOf db (phaseLog burnBlockTables i1) r1"
    unfolding r1_def by auto
  from importPhase_partOf [of Attachments "snd r1" e t p] obtain i2 where
    i2: "\<forall>c \<in> set i2. insertInto attachmentTables c"
    and p2: "partOf (snd r1) (phaseLog attachmentTables i2) (insertNewAttachmentEvents e t p (snd r1))"
    by auto
  from importPhase_partOf [of RawEvents "snd r2" e t p] obtain i3 where
    i3: "\<forall>c \<in> set i3. insertInto rawEventTables c"
    and p3: "partOf (snd r2) (phaseLog rawEventTables i3) (insertRawEvents e t p (snd r2))"
    by auto
  from importPhase_partOf [of NewBlocks "snd r3" e t p] obtain i4 where
    i4: "\<forall>c \<in> set i4. insertInto newBlockTables c"
    and p4: "partOf (snd r3) (phaseLog newBlockTables i4) (insertNewBlockEvents e t p (snd r3))"
    by auto
  have q2: "partOf db (phaseLog burnBlockTables i1 @ phaseLog attachmentTables i2) r2"
    unfolding r2_def by (rule thenPhase_partOf [where f = "insertNewAttachmentEvents e t p", OF p1 p2])
  have q3: "partOf db ((phaseLog burnBlockTables i1 @ phaseLog attachmentTables i2)
                        @ phaseLog rawEventTables i3) r3"
    unfolding r3_def by (rule thenPhase_partOf [where f = "insertRawEvents e t p", OF q2 p3])
  have "partOf db (((phaseLog burnBlockTables i1 @ phaseLog attachmentTables i2)
                        @ phaseLog rawEventTables i3) @ phaseLog newBlockTables i4)
          (thenPhase r3 (insertNewBlockEvents e t p))"
    by (rule thenPhase_partOf [where f = "insertNewBlockEvents e t p", OF q3 p4])
  then have "partOf db (phaseLog burnBlockTables i1 @ phaseLog attachmentTables i2
                 @ phaseLog rawEventTables i3 @ phaseLog newBlockTables i4)
        (runPhases e t p db)"
    by (simp add: runPhases_def r3_def r2_def r1_def)
  with i1 i2 i3 i4 show ?thesis by blast
qed

lemma preOrgTsvImport_Inr:
  assumes "preOrgTsvImport e f files db = Inr (files', out)"
  shows "\<exists>t acts preorg. loadArtifacts e f files = Inr (files', t, acts)
           \<and> files' (f @ ''-preorg'') = Some preorg \<and> out = runPhases e t preorg db"
proof -
  from assms obtain x where x: "loadArtifacts e f files = Inr x"
    and r: "(case x of (files1, t, acts) \<Rightarrow>
              case files1 (f @ ''-preorg'') of
                None \<Rightarrow> Inl IOError
              | Some preorg \<Rightarrow> Inr (files1, runPhases e t preorg db)) = Inr (files', out)"
    unfolding preOrgTsvImport_def by (rule bindE_InrE)
  obtain files1 t acts where xe: "x = (files1, t, acts)" by (cases x)
  from r xe show ?thesis using x by (auto split: option.splits)
qed

text \<open>
  C8. Whatever the outcome of the import, the storage has grown by an initial part of a log
  made of four pieces in the order burn-blocks, attachments, raw events, new-blocks, each
  piece the transaction of that phase (with inserts into the tables of the phase only)
  followed by the reindexing of its tables; it has grown by the whole log when no phase
  threw. So every call of a phase comes after the commit and the reindexing of the phase
  before it.
\<close>

theorem phases_run_in_order:
  assumes "preOrgTsvImport e f files db = Inr (files', oe, db')"
  shows "\<exists>i1 i2 i3 i4 new rest.
     db' = db @ new
   \<and> new @ rest = phaseLog burnBlockTables i1 @ phaseLog attachmentTables i2
                   @ phaseLog rawEventTables i3 @ phaseLog newBlockTables i4
   \<and> (oe = None \<longrightarrow> rest = [])
   \<and> (\<forall>c \<in> set i1. insertInto burnBlockTables c)
   \<and> (\<forall>c \<in> set i2. insertInto attachmentTables c)
   \<and> (\<forall>c \<in> set i3. insertInto rawEventTables c)
   \<and> (\<forall>c \<in> set i4. insertInto newBlockTables c)"
proof -
  from preOrgTsvImport_Inr [OF assms] obtain t preorg where
    out: "(oe, db') = runPhases e t preorg db" by blast
  from runPhases_partOf [of db e t preorg] obtain i1 i2 i3 i4 where
    i: "\<forall>c \<in> set i1. insertInto burnBlockTables c"
       "\<forall>c \<in> set i2. insertInto attachmentTables c"
       "\<forall>c \<in> set i3. insertInto rawEventTables c"
       "\<forall>c \<in> set i4. insertInto newBlockTables c"
    and p: "partOf db (phaseLog burnBlockTables i1 @ phaseLog attachmentTables i2
                 @ phaseLog rawEventTables i3 @ phaseLog newBlockTables i4) (oe, db')"
    unfolding out by blast
  from p obtain new rest where
    "db' = db @ new"
    "new @ rest = phaseLog burnBlockTables i1 @ phaseLog attachmentTables i2
                   @ phaseLog rawEventTables i3 @ phaseLog newBlockTables i4"
    "oe = None \<longrightarrow> rest = []"
    by (auto simp: partOf_def)
  with i show ?thesis by blast
qed


subsection \<open>The sample run\<close>

lemma sample_loadArtifacts:
  "loadArtifacts sampleEnv ''log.tsv'' sampleFiles
   = Inr (sampleFilesAfter, sampleEntityData, [ScanCanonical, WritePreorg])"
  by (simp add: loadArtifacts_def loadEntityData_def sampleEnv_def sampleFiles_def
      sampleFilesAfter_def sampleEntityData_def)

lemma sample_burn_blocks:
  "insertNewBurnBlockEvents sampleEnv sampleEntityData ''line'' db
   = (None, db @ phaseLog burnBlockTables [])"
  by (simp add: insertNewBurnBlockEvents_def phase_def sql_begin_def burnBlockCallback_def
      phaseCallback_def burnBlockStep_def burnBlockTables_def readPreorgTsv_def exec_def
      sampleEnv_def sampleRecord_def sampleBurnBlock_def initialLoopState_def
      reportProgress_def phaseLog_def transactionLog_def split: prod.splits)

lemma sample_attachments:
  "insertNewAttachmentEvents sampleEnv sampleEntityData ''line'' db
   = (None, db @ phaseLog attachmentTables [])"
  by (simp add: insertNewAttachmentEvents_def phase_def sql_begin_def attachmentCallback_def
      phaseCallback_def attachmentTables_def readPreorgTsv_def exec_def
      sampleEnv_def sampleRecord_def initialLoopState_def
      phaseLog_def transactionLog_def)

lemma sample_raw_events:
  "insertRawEvents sampleEnv sampleEntityData ''line'' db
   = (None, db @ phaseLog rawEventTables [StoreRawEventRequest1 ''/new_burn_block'' ''{}''])"
  by (simp add: insertRawEvents_def phase_def sql_begin_def rawEventCallback_def
      phaseCallback_def rawEventStep_def rawEventTables_def readPreorgTsv_def exec_def
      sampleEnv_def sampleRecord_def initialLoopState_def
      reportProgress_def phaseLog_def transactionLog_def split: prod.splits)

lemma sample_new_blocks:
  "insertNewBlockEvents sampleEnv sampleEntityData ''line'' db
   = (None, db @ phaseLog newBlockTables [])"
  by (simp add: insertNewBlockEvents_def phase_def sql_begin_def newBlockCallback_def
      phaseCallback_def newBlockAfterLoop_def flush_def newBlockTables_def readPreorgTsv_def
      exec_def sampleEnv_def sampleRecord_def initialNewBlockState_def
      phaseLog_def transactionLog_def)

lemma sample_run:
  "preOrgTsvImport sampleEnv ''log.tsv'' sampleFiles []
   = Inr (sampleFilesAfter, None,
          phaseLog burnBlockTables [] @ phaseLog attachmentTables []
          @ phaseLog rawEventTables [StoreRawEventRequest1 ''/new_burn_block'' ''{}'']
          @ phaseLog newBlockTables [])"
  by (simp add: preOrgTsvImport_def sample_loadArtifacts runPhases_def thenPhase_def
      sample_burn_blocks sample_attachments sample_raw_events sample_new_blocks
      sampleFilesAfter_def)

text \<open>The sample run returns without error, and its log is made of the four pieces.\<close>

theorem phases_run_in_order_witness:
  "preOrgTsvImport sampleEnv ''log.tsv'' sampleFiles []
     = Inr (sampleFilesAfter, None,
          phaseLog burnBlockTables [] @ phaseLog attachmentTables []
          @ phaseLog rawEventTables [StoreRawEventRequest1 ''/new_burn_block'' ''{}'']
          @ phaseLog newBlockTables [])
   \<and> (\<exists>i1 i2 i3 i4.
          phaseLog burnBlockTables [] @ phaseLog attachmentTables []
          @ phaseLog rawEventTables [StoreRawEventRequest1 ''/new_burn_block'' ''{}'']
          @ phaseLog newBlockTables []
        = phaseLog burnBlockTables i1 @ phaseLog attachmentTables i2
          @ phaseLog rawEventTables i3 @ phaseLog newBlockTables i4)"
proof -
  from phases_run_in_order [OF sample_run] obtain i1 i2 i3 i4 new rest where
    "phaseLog burnBlockTables [] @ phaseLog attachmentTables []
          @ phaseLog rawEventTables [StoreRawEventRequest1 ''/new_burn_block'' ''{}'']
          @ phaseLog newBlockTables [] = [] @ new"
    "new @ rest = phaseLog burnBlockTables i1 @ phaseLog attachmentTables i2
                   @ phaseLog rawEventTables i3 @ phaseLog newBlockTables i4"
    "(None :: error option) = None \<longrightarrow> rest = []"
    by blast
  then have "phaseLog burnBlockTables [] @ phaseLog attachmentTables []
          @ phaseLog rawEventTables [StoreRawEventRequest1 ''/new_burn_block'' ''{}'']
          @ phaseLog newBlockTables []
        = phaseLog burnBlockTables i1 @ phaseLog attachmentTables i2
          @ phaseLog rawEventTables i3 @ phaseLog newBlockTables i4"
    by simp
  with sample_run show ?thesis by blast
qed

subsection \<open>The artifacts of a second run\<close>

lemma loadEntityData_files:
  assumes "loadEntityData e f files = Inr (files1, d, acts)"
  shows "(\<exists>json. files1 (f @ ''.entitydata'') = Some json
            \<and> (entityDataFromJson e (entityDataToJson e d) = Some d
                \<longrightarrow> entityDataFromJson e json = Some d))
       \<and> files1 f = files f
       \<and> files1 (f @ ''-preorg'') = files (f @ ''-preorg'')"
proof (cases "files (f @ ''.entitydata'')")
  case (Some json)
  with assms show ?thesis
    by (auto simp: loadEntityData_def split: option.splits)
next
  case None
  with assms show ?thesis
    by (auto simp: loadEntityData_def split: option.splits)
qed

text \<open>
  C9. When a run has loaded or computed its artifacts, and \<open>JSON.parse\<close> gives back the
  entity data that \<open>JSON.stringify\<close> wrote, a second run on the files the first one left
  finds both artifacts (the entity data beside the source under \<open>.entitydata\<close>, the preorg
  file under \<open>-preorg\<close>), scans nothing and writes no preorg file, leaves the files as
  they are, and uses the same entity data and the same preorg contents as the first run;
  both imports run their phases on that entity data and those contents.
\<close>

theorem second_run_reuses_artifacts:
  assumes first: "loadArtifacts e f files = Inr (files1, d, acts)"
    and json: "entityDataFromJson e (entityDataToJson e d) = Some d"
  shows "loadArtifacts e f files1 = Inr (files1, d, [])
       \<and> files1 (f @ ''.entitydata'') \<noteq> None
       \<and> (\<exists>preorg. files1 (f @ ''-preorg'') = Some preorg
            \<and> preOrgTsvImport e f files db = Inr (files1, runPhases e d preorg db)
            \<and> preOrgTsvImport e f files1 db2 = Inr (files1, runPhases e d preorg db2))"
proof -
  from first obtain x where x: "loadEntityData e f files = Inr x"
    and r: "(case x of (files0, t, actions) \<Rightarrow>
       case files0 (f @ ''-preorg'') of
         Some preorg \<Rightarrow> Inr (files0, t, actions)
       | None \<Rightarrow>
           (case files0 f of
              None \<Rightarrow> Inl IOError
            | Some raw \<Rightarrow>
                (case createTsvReorgStream e (indexBlockHashes t) (burnBlockHashes t) raw of
                   None \<Rightarrow> Inl ParseError
                 | Some preorg \<Rightarrow>
                     Inr (files0(f @ ''-preorg'' \<mapsto> preorg), t, actions @ [WritePreorg]))))
      = Inr (files1, d, acts)"
    unfolding loadArtifacts_def by (rule bindE_InrE)
  obtain files0 t a0 where xe: "x = (files0, t, a0)" by (cases x)
  from r xe have td: "t = d" by (auto split: option.splits)
  from loadEntityData_files [OF x [unfolded xe td]] json obtain j where
    j: "files0 (f @ ''.entitydata'') = Some j" "entityDataFromJson e j = Some d"
    by blast
  from r xe obtain preorg where
    p: "files1 (f @ ''-preorg'') = Some preorg"
    and e1: "files1 (f @ ''.entitydata'') = files0 (f @ ''.entitydata'')"
    by (auto split: option.splits)
  from j e1 have led: "loadEntityData e f files1 = Inr (files1, d, [])"
    by (simp add: loadEntityData_def)
  with p have second: "loadArtifacts e f files1 = Inr (files1, d, [])"
    by (simp add: loadArtifacts_def)
  from first p have "preOrgTsvImport e f files db = Inr (files1, runPhases e d preorg db)"
    by (simp add: preOrgTsvImport_def)
  moreover from second p
  have "preOrgTsvImport e f files1 db2 = Inr (files1, runPhases e d preorg db2)"
    by (simp add: preOrgTsvImport_def)
  ultimately show ?thesis using second j e1 p by auto
qed

text \<open>The sample run scans and writes the preorg file; a run on the files it leaves does
  neither.\<close>

theorem second_run_reuses_artifacts_witness:
  "loadArtifacts sampleEnv ''log.tsv'' sampleFiles
     = Inr (sampleFilesAfter, sampleEntityData, [ScanCanonical, WritePreorg])
   \<and> entityDataFromJson sampleEnv (entityDataToJson sampleEnv sampleEntityData)
       = Some sampleEntityData
   \<and> loadArtifacts sampleEnv ''log.tsv'' sampleFilesAfter
       = Inr (sampleFilesAfter, sampleEntityData, [])"
proof -
  have j: "entityDataFromJson sampleEnv (entityDataToJson sampleEnv sampleEntityData)
           = Some sampleEntityData"
    by (simp add: sampleEnv_def)
  from second_run_reuses_artifacts [OF sample_loadArtifacts j] sample_loadArtifacts j
  show ?thesis by blast
qed


subsection \<open>The progress log of the phase loops\<close>

lemma progressOf_exec: "exec fails c st = Inr st' \<Longrightarrow> progressOf st' = progressOf st"
  by (auto simp: exec_Inr progressOf_def)

lemma progressOf_if_exec:
  "(if b then exec fails c st else Inr st) = Inr st' \<Longrightarrow> progressOf st' = progressOf st"
  by (cases b) (simp_all add: progressOf_exec)

lemma progressOf_forEachE:
  "(\<And>x s s'. f x s = Inr s' \<Longrightarrow> progressOf s' = progressOf s)
   \<Longrightarrow> forEachE f xs st = Inr st' \<Longrightarrow> progressOf st' = progressOf st"
proof (induction xs arbitrary: st)
  case Nil
  then show ?case by simp
next
  case (Cons x xs)
  from Cons.prems(2) obtain s1 where 1: "f x st = Inr s1" and 2: "forEachE f xs s1 = Inr st'"
    by (auto split: sum.splits)
  from Cons.IH [OF Cons.prems(1) 2] Cons.prems(1) [OF 1] show ?case by simp
qed

lemma progressOf_forEachE_exec:
  "forEachE (\<lambda>x. exec fails (g x)) xs st = Inr st' \<Longrightarrow> progressOf st' = progressOf st"
  by (erule progressOf_forEachE [rotated]) (rule progressOf_exec)

lemma progressOf_bindE:
  assumes "bindE m g = Inr st'"
    and "\<And>s1. m = Inr s1 \<Longrightarrow> progressOf s1 = progressOf st"
    and "\<And>s1. g s1 = Inr st' \<Longrightarrow> progressOf st' = progressOf s1"
  shows "progressOf st' = progressOf st"
proof -
  from assms(1) obtain s1 where "m = Inr s1" and "g s1 = Inr st'" by (rule bindE_InrE)
  then show ?thesis using assms(2,3) by simp
qed

lemma progressOf_reportProgress:
  "progressOf (reportProgress n r st) = statusUpdate n r (progressOf st)"
  by (simp add: reportProgress_def progressOf_def split: prod.splits)

lemma burnBlockStep_progress:
  assumes "burnBlockStep e t ev st = Inr st'"
  shows "progressOf st' = statusUpdate (tsvLineCount t) (readLineCount ev) (progressOf st)"
proof -
  from assms obtain b where b: "parseBurnBlockMessage e (payload ev) = Some b"
    by (cases "parseBurnBlockMessage e (payload ev)") (simp_all add: burnBlockStep_None)
  from assms obtain s1 s2 where
    1: "(if length (rewards b) > 0
         then exec (dbFails e) (UpdateBurnchainRewards (burn_block_hash b) (burn_block_height b) (rewards b)) st
         else Inr st) = Inr s1"
    and 2: "(if length (slotHolders b) > 0
         then exec (dbFails e) (UpdateBurnchainRewardSlotHolders (burn_block_hash b) (burn_block_height b) (slotHolders b)) s1
         else Inr s1) = Inr s2"
    and 3: "st' = reportProgress (tsvLineCount t) (readLineCount ev) s2"
    unfolding burnBlockStep_Some [OF b] by (elim bindE_InrE) simp
  from progressOf_if_exec [OF 1] progressOf_if_exec [OF 2] 3 show ?thesis
    by (simp add: progressOf_reportProgress)
qed

lemma attachmentStep_progress:
  assumes "attachmentStep e t ev st = Inr st'"
  shows "progressOf st' = statusUpdate (tsvLineCount t) (readLineCount ev) (progressOf st)"
proof -
  from assms obtain sds where b: "parseAttachmentMessage e (payload ev) = Some sds"
    by (auto simp: attachmentStep_def split: option.splits)
  from assms b obtain s1 where
    1: "forEachE (\<lambda>subdomain. exec (dbFails e)
           (UpdateBatchSubdomains (subdomainBlock subdomain) [subdomain])) sds st = Inr s1"
    and 2: "st' = reportProgress (tsvLineCount t) (readLineCount ev) s1"
    by (auto simp: attachmentStep_def bindE_Inr)
  from progressOf_forEachE_exec [OF 1] 2 show ?thesis
    by (simp add: progressOf_reportProgress)
qed

lemma rawEventStep_progress:
  assumes "rawEventStep e t ev st = Inr st'"
  shows "progressOf st' = statusUpdate (tsvLineCount t) (readLineCount ev) (progressOf st)"
proof -
  from assms obtain s1 where
    1: "exec (dbFails e) (StoreRawEventRequest1 (path ev) (payload ev)) st = Inr s1"
    and 2: "st' = reportProgress (tsvLineCount t) (readLineCount ev) s1"
    by (auto simp: rawEventStep_def bindE_Inr)
  from progressOf_exec [OF 1] 2 show ?thesis by (simp add: progressOf_reportProgress)
qed

lemma pushTx_progress: "pushTx e entries st = Inr st' \<Longrightarrow> progressOf st' = progressOf st"
proof -
  assume a: "pushTx e entries st = Inr st'"
  obtain batches buffer where p: "push (batchIterateTx e) 1000 (dbTxBatchInserter st) entries = (batches, buffer)"
    by (cases "push (batchIterateTx e) 1000 (dbTxBatchInserter st) entries")
  with a have "forEachE (\<lambda>batch. exec (dbFails e) (UpdateTxBatch batch)) batches
                 (st\<lparr>dbTxBatchInserter := buffer\<rparr>) = Inr st'"
    by (simp add: pushTx_def)
  from progressOf_forEachE_exec [OF this] show ?thesis by (simp add: progressOf_def)
qed

lemma pushPrincipalStxTxs_progress:
  "pushPrincipalStxTxs e entries st = Inr st' \<Longrightarrow> progressOf st' = progressOf st"
proof -
  assume a: "pushPrincipalStxTxs e entries st = Inr st'"
  obtain batches buffer where
    p: "push (batchIteratePrincipal e) 1000 (dbPrincipalStxTxBatchInserter st) entries = (batches, buffer)"
    by (cases "push (batchIteratePrincipal e) 1000 (dbPrincipalStxTxBatchInserter st) entries")
  with a have "forEachE (\<lambda>batch. exec (dbFails e) (InsertPrincipalStxTxsBatched batch)) batches
                 (st\<lparr>dbPrincipalStxTxBatchInserter := buffer\<rparr>) = Inr st'"
    by (simp add: pushPrincipalStxTxs_def)
  from progressOf_forEachE_exec [OF this] show ?thesis by (simp add: progressOf_def)
qed

lemma txEntryStep_progress:
  "txEntryStep e entry st = Inr st' \<Longrightarrow> progressOf st' = progressOf st"
  unfolding txEntryStep_def
  apply (erule progressOf_bindE, erule pushTx_progress)
  apply (erule progressOf_bindE, erule progressOf_exec)
  apply (erule progressOf_bindE, erule pushPrincipalStxTxs_progress)
  apply (erule progressOf_bindE, erule progressOf_exec)
  apply (erule progressOf_bindE, erule progressOf_forEachE_exec)
  apply (erule progressOf_bindE, erule progressOf_forEachE_exec)
  apply (erule progressOf_bindE, erule progressOf_forEachE_exec)
  apply (erule progressOf_bindE, erule progressOf_forEachE_exec)
  apply (erule progressOf_bindE, erule progressOf_forEachE_exec)
  apply (erule progressOf_forEachE_exec)
  done

lemma newBlockStep_progress:
  assumes "newBlockStep e t ev st = Inr st'"
  shows "progressOf st' = statusUpdate (tsvLineCount t) (readLineCount ev) (progressOf st)"
proof -
  let ?st0 = "st\<lparr>blocksInserted := blocksInserted st + 1\<rparr>"
  from assms obtain d where d: "parseNewBlockMessage e (payload ev) = Some d"
    by (auto simp: newBlockStep_def Let_def split: option.splits)
  from assms d obtain s1 s2 s3 where
    1: "exec (dbFails e) (UpdateBlock (block d)) ?st0 = Inr s1"
    and 2: "(if length (microblocks d) > 0
             then exec (dbFails e) (InsertMicroblock (microblocks d)) s1 else Inr s1) = Inr s2"
    and 3: "(if length (txs d) > 0
             then forEachE (txEntryStep e) (txs d) s2 else Inr s2) = Inr s3"
    and 4: "st' = reportProgress (tsvLineCount t) (readLineCount ev) s3"
    unfolding newBlockStep_def Let_def by (auto simp: bindE_Inr)
  from progressOf_exec [OF 1] have p1: "progressOf s1 = progressOf st"
    by (simp add: progressOf_def)
  have p3: "progressOf s3 = progressOf s2"
  proof (cases "length (txs d) > 0")
    case True
    with 3 have "forEachE (txEntryStep e) (txs d) s2 = Inr s3" by simp
    then show ?thesis by (rule progressOf_forEachE [rotated]) (rule txEntryStep_progress)
  next
    case False
    with 3 show ?thesis by simp
  qed
  from p1 progressOf_if_exec [OF 2] p3 4 show ?thesis
    by (simp add: progressOf_reportProgress)
qed

lemma loop_progress:
  assumes "\<And>ev s s'. step ev s = Inr s'
             \<Longrightarrow> progressOf s' = statusUpdate n (readLineCount ev) (progressOf s)"
    and "forEachE step evs st = Inr st'"
  shows "progressOf st'
         = foldl (\<lambda>s r. statusUpdate n r s) (progressOf st) (map readLineCount evs)"
  using assms(2)
proof (induction evs arbitrary: st)
  case Nil
  then show ?case by simp
next
  case (Cons ev evs)
  from Cons.prems obtain s1 where 1: "step ev st = Inr s1" and 2: "forEachE step evs s1 = Inr st'"
    by (auto split: sum.splits)
  from Cons.IH [OF 2] assms(1) [OF 1] show ?case by simp
qed

text \<open>
  The percentages a phase loop has logged when it ends are those of \<open>progressLog\<close> on the
  \<open>readLineCount\<close> values of its records; the new-blocks phase has logged one more 100
  when its flushes are done.
\<close>

lemma phase_loops_log_progress:
  "forEachE (burnBlockStep e t) evs initialLoopState = Inr st
     \<Longrightarrow> logged st = progressLog (tsvLineCount t) (map readLineCount evs)"
  "forEachE (attachmentStep e t) evs initialLoopState = Inr st
     \<Longrightarrow> logged st = progressLog (tsvLineCount t) (map readLineCount evs)"
  "forEachE (rawEventStep e t) evs initialLoopState = Inr st
     \<Longrightarrow> logged st = progressLog (tsvLineCount t) (map readLineCount evs)"
  "forEachE (newBlockStep e t) evs initialNewBlockState = Inr st2
     \<Longrightarrow> logged st2 = progressLog (tsvLineCount t) (map readLineCount evs)"
proof -
  have init: "progressOf initialLoopState = (0, [])" "progressOf initialNewBlockState = (0, [])"
    by (simp_all add: progressOf_def initialLoopState_def initialNewBlockState_def)
  have l: "logged s = snd (progressOf s)" for s :: "'a loopState_scheme"
    by (simp add: progressOf_def)
  show "forEachE (burnBlockStep e t) evs initialLoopState = Inr st
     \<Longrightarrow> logged st = progressLog (tsvLineCount t) (map readLineCount evs)"
  proof -
    assume h: "forEachE (burnBlockStep e t) evs initialLoopState = Inr st"
    have "progressOf st
          = foldl (\<lambda>s r. statusUpdate (tsvLineCount t) r s) (progressOf initialLoopState)
              (map readLineCount evs)"
      by (rule loop_progress [where step = "burnBlockStep e t", OF _ h]) (rule burnBlockStep_progress)
    then show ?thesis by (simp add: l init progressLog_def)
  qed
  show "forEachE (attachmentStep e t) evs initialLoopState = Inr st
     \<Longrightarrow> logged st = progressLog (tsvLineCount t) (map readLineCount evs)"
  proof -
    assume h: "forEachE (attachmentStep e t) evs initialLoopState = Inr st"
    have "progressOf st
          = foldl (\<lambda>s r. statusUpdate (tsvLineCount t) r s) (progressOf initialLoopState)
              (map readLineCount evs)"
      by (rule loop_progress [where step = "attachmentStep e t", OF _ h]) (rule attachmentStep_progress)
    then show ?thesis by (simp add: l init progressLog_def)
  qed
  show "forEachE (rawEventStep e t) evs initialLoopState = Inr st
     \<Longrightarrow> logged st = progressLog (tsvLineCount t) (map readLineCount evs)"
  proof -
    assume h: "forEachE (rawEventStep e t) evs initialLoopState = Inr st"
    have "progressOf st
          = foldl (\<lambda>s r. statusUpdate (tsvLineCount t) r s) (progressOf initialLoopState)
              (map readLineCount evs)"
      by (rule loop_progress [where step = "rawEventStep e t", OF _ h]) (rule rawEventStep_progress)
    then show ?thesis by (simp add: l init progressLog_def)
  qed
  show "forEachE (newBlockStep e t) evs initialNewBlockState = Inr st2
     \<Longrightarrow> logged st2 = progressLog (tsvLineCount t) (map readLineCount evs)"
  proof -
    assume h: "forEachE (newBlockStep e t) evs initialNewBlockState = Inr st2"
    have "progressOf st2
          = foldl (\<lambda>s r. statusUpdate (tsvLineCount t) r s) (progressOf initialNewBlockState)
              (map readLineCount evs)"
      by (rule loop_progress [where step = "newBlockStep e t", OF _ h]) (rule newBlockStep_progress)
    then show ?thesis by (simp add: l init progressLog_def)
  qed
qed

lemma newBlockAfterLoop_logged:
  assumes "newBlockAfterLoop e st = Inr st'"
  shows "logged st' = logged st @ [100]"
proof -
  from assms obtain s1 s2 where
    1: "forEachE (\<lambda>batch. exec (dbFails e) (UpdateTxBatch batch))
              (fst (flush (dbTxBatchInserter st)))
              (st\<lparr>dbTxBatchInserter := snd (flush (dbTxBatchInserter st))\<rparr>) = Inr s1"
    and 2: "forEachE (\<lambda>batch. exec (dbFails e) (InsertPrincipalStxTxsBatched batch))
              (fst (flush (dbPrincipalStxTxBatchInserter s1)))
              (s1\<lparr>dbPrincipalStxTxBatchInserter :=
                     snd (flush (dbPrincipalStxTxBatchInserter s1))\<rparr>) = Inr s2"
    and 3: "st' = s2\<lparr>logged := logged s2 @ [100]\<rparr>"
    unfolding newBlockAfterLoop_def bindE_Inr by auto
  from progressOf_forEachE_exec [OF 1] progressOf_forEachE_exec [OF 2] 3
  show ?thesis by (simp add: progressOf_def)
qed

lemma new_block_phase_logs_progress:
  assumes "forEachE (newBlockStep e t) evs initialNewBlockState = Inr st"
    and "newBlockAfterLoop e st = Inr st'"
  shows "logged st' = newBlockProgressLog (tsvLineCount t) (map readLineCount evs)"
  using phase_loops_log_progress(4) [OF assms(1)] newBlockAfterLoop_logged [OF assms(2)]
  by (simp add: newBlockProgressLog_def)


subsection \<open>The rows of the new-blocks phase reach the storage once, in order\<close>

lemma principalRowsOf_append [simp]:
  "principalRowsOf (xs @ ys) = principalRowsOf xs @ principalRowsOf ys"
  by (simp add: principalRowsOf_def)

lemma principalRowsOf_Nil [simp]: "principalRowsOf [] = []"
  by (simp add: principalRowsOf_def)

lemma principalRowsOf_single [simp]: "principalRowsOf [c] = principalBatch c"
  by (simp add: principalRowsOf_def)

lemma addsRows_refl [simp]: "addsRows st st []"
  by (simp add: addsRows_def)

lemma addsRows_trans: "addsRows s1 s2 r1 \<Longrightarrow> addsRows s2 s3 r2 \<Longrightarrow> addsRows s1 s3 (r1 @ r2)"
  by (simp add: addsRows_def)

lemma addsRows_exec:
  "exec fails c st = Inr st' \<Longrightarrow> principalBatch c = [] \<Longrightarrow> addsRows st st' []"
  by (auto simp: exec_Inr addsRows_def)

lemma addsRows_bindE:
  assumes "bindE m g = Inr st'"
    and "\<And>s1. m = Inr s1 \<Longrightarrow> addsRows st s1 r1"
    and "\<And>s1. g s1 = Inr st' \<Longrightarrow> addsRows s1 st' r2"
  shows "addsRows st st' (r1 @ r2)"
proof -
  from assms(1) obtain s1 where "m = Inr s1" and "g s1 = Inr st'" by (rule bindE_InrE)
  then show ?thesis using assms(2,3) by (blast intro: addsRows_trans)
qed

lemma addsRows_forEachE:
  "(\<And>x s s'. f x s = Inr s' \<Longrightarrow> addsRows s s' (g x))
   \<Longrightarrow> forEachE f xs st = Inr st' \<Longrightarrow> addsRows st st' (concat (map g xs))"
proof (induction xs arbitrary: st)
  case Nil
  then show ?case by simp
next
  case (Cons x xs)
  from Cons.prems(2) obtain s1 where 1: "f x st = Inr s1" and 2: "forEachE f xs s1 = Inr st'"
    by (auto split: sum.splits)
  from addsRows_trans [OF Cons.prems(1) [OF 1] Cons.IH [OF Cons.prems(1) 2]]
  show ?case by simp
qed

lemma addsRows_forEachE_exec:
  "(\<And>x. principalBatch (c x) = [])
   \<Longrightarrow> forEachE (\<lambda>x. exec fails (c x)) xs st = Inr st' \<Longrightarrow> addsRows st st' []"
proof -
  assume a: "\<And>x. principalBatch (c x) = []"
    and b: "forEachE (\<lambda>x. exec fails (c x)) xs st = Inr st'"
  have "addsRows st st' (concat (map (\<lambda>x. []) xs))"
    by (rule addsRows_forEachE [OF _ b]) (erule addsRows_exec, rule a)
  moreover have "concat (map (\<lambda>x. []) xs) = ([] :: PrincipalStxTxsInsertValues list)"
    by (induction xs) simp_all
  ultimately show ?thesis by simp
qed

lemma forEachE_exec_calls:
  "forEachE (\<lambda>x. exec fails (c x)) xs st = Inr st'
   \<Longrightarrow> calls st' = calls st @ map c xs
       \<and> dbPrincipalStxTxBatchInserter st' = dbPrincipalStxTxBatchInserter st"
proof (induction xs arbitrary: st)
  case Nil
  then show ?case by simp
next
  case (Cons x xs)
  from Cons.prems obtain s1 where 1: "exec fails (c x) st = Inr s1"
    and 2: "forEachE (\<lambda>x. exec fails (c x)) xs s1 = Inr st'"
    by (auto split: sum.splits)
  from 1 Cons.IH [OF 2] show ?case by (auto simp: exec_Inr)
qed

lemma principalRowsOf_batches:
  "principalRowsOf (map InsertPrincipalStxTxsBatched batches) = concat batches"
  by (induction batches) (simp_all add: principalRowsOf_def)

lemma pushTx_addsRows: "pushTx e entries st = Inr st' \<Longrightarrow> addsRows st st' []"
proof -
  assume a: "pushTx e entries st = Inr st'"
  obtain batches buffer where p: "push (batchIterateTx e) 1000 (dbTxBatchInserter st) entries = (batches, buffer)"
    by (cases "push (batchIterateTx e) 1000 (dbTxBatchInserter st) entries")
  with a have "forEachE (\<lambda>batch. exec (dbFails e) (UpdateTxBatch batch)) batches
                 (st\<lparr>dbTxBatchInserter := buffer\<rparr>) = Inr st'"
    by (simp add: pushTx_def)
  then have "addsRows (st\<lparr>dbTxBatchInserter := buffer\<rparr>) st' []"
    by (rule addsRows_forEachE_exec [rotated]) simp
  then show ?thesis by (simp add: addsRows_def)
qed

lemma pushPrincipalStxTxs_addsRows:
  assumes "splitsInOrder (batchIteratePrincipal e) 1000"
    and "pushPrincipalStxTxs e entries st = Inr st'"
  shows "addsRows st st' entries"
proof -
  obtain batches buffer where
    p: "push (batchIteratePrincipal e) 1000 (dbPrincipalStxTxBatchInserter st) entries = (batches, buffer)"
    by (cases "push (batchIteratePrincipal e) 1000 (dbPrincipalStxTxBatchInserter st) entries")
  with assms(2) have "forEachE (\<lambda>batch. exec (dbFails e) (InsertPrincipalStxTxsBatched batch)) batches
                 (st\<lparr>dbPrincipalStxTxBatchInserter := buffer\<rparr>) = Inr st'"
    by (simp add: pushPrincipalStxTxs_def)
  from forEachE_exec_calls [OF this]
  have c: "calls st' = calls st @ map InsertPrincipalStxTxsBatched batches"
    and b: "dbPrincipalStxTxBatchInserter st' = buffer"
    by simp_all
  have "concat batches @ buffer = dbPrincipalStxTxBatchInserter st @ entries"
    using push_concat [OF assms(1), of "dbPrincipalStxTxBatchInserter st" entries] p by simp
  then show ?thesis by (simp add: addsRows_def c b principalRowsOf_batches)
qed

lemma txEntryStep_addsRows:
  assumes "splitsInOrder (batchIteratePrincipal e) 1000"
    and "txEntryStep e entry st = Inr st'"
  shows "addsRows st st' (snd (processStxEvents entry))"
proof -
  have "addsRows st st' ([] @ [] @ snd (processStxEvents entry) @ [] @ [] @ [] @ [] @ [] @ [] @ [])"
    using assms(2) unfolding txEntryStep_def
    apply (elim addsRows_bindE)
             apply (erule pushTx_addsRows)
            apply (erule addsRows_exec, simp)
           apply (erule pushPrincipalStxTxs_addsRows [OF assms(1)])
          apply (erule addsRows_exec, simp)
         apply (erule addsRows_forEachE_exec [rotated], simp)
        apply (erule addsRows_forEachE_exec [rotated], simp)
       apply (erule addsRows_forEachE_exec [rotated], simp)
      apply (erule addsRows_forEachE_exec [rotated], simp)
     apply (erule addsRows_forEachE_exec [rotated], simp)
    apply (erule addsRows_forEachE_exec [rotated], simp)
    done
  then show ?thesis by simp
qed


lemma addsRows_reportProgress: "addsRows st (reportProgress n r st) []"
  by (simp add: addsRows_def reportProgress_def split: prod.splits)

lemma newBlockStep_addsRows:
  assumes "splitsInOrder (batchIteratePrincipal e) 1000"
    and "newBlockStep e t ev st = Inr st'"
  shows "addsRows st st' (recordPrincipalRows e ev)"
proof -
  let ?st0 = "st\<lparr>blocksInserted := blocksInserted st + 1\<rparr>"
  from assms(2) obtain d where d: "parseNewBlockMessage e (payload ev) = Some d"
    by (auto simp: newBlockStep_def Let_def split: option.splits)
  from assms(2) d obtain s1 s2 s3 where
    1: "exec (dbFails e) (UpdateBlock (block d)) ?st0 = Inr s1"
    and 2: "(if length (microblocks d) > 0
             then exec (dbFails e) (InsertMicroblock (microblocks d)) s1 else Inr s1) = Inr s2"
    and 3: "(if length (txs d) > 0
             then forEachE (txEntryStep e) (txs d) s2 else Inr s2) = Inr s3"
    and 4: "st' = reportProgress (tsvLineCount t) (readLineCount ev) s3"
    unfolding newBlockStep_def Let_def by (auto simp: bindE_Inr)
  from addsRows_exec [OF 1] have a1: "addsRows st s1 []" by (simp add: addsRows_def)
  from 2 have a2: "addsRows s1 s2 []"
    by (cases "length (microblocks d) > 0") (simp_all add: addsRows_exec)
  have a3: "addsRows s2 s3 (concat (map (\<lambda>entry. snd (processStxEvents entry)) (txs d)))"
  proof (cases "length (txs d) > 0")
    case True
    with 3 have "forEachE (txEntryStep e) (txs d) s2 = Inr s3" by simp
    then show ?thesis by (rule addsRows_forEachE [rotated]) (rule txEntryStep_addsRows [OF assms(1)])
  next
    case False
    with 3 show ?thesis by simp
  qed
  from 4 have a4: "addsRows s3 st' []" by (simp add: addsRows_reportProgress)
  from addsRows_trans [OF addsRows_trans [OF addsRows_trans [OF a1 a2] a3] a4] d
  show ?thesis by (simp add: recordPrincipalRows_def)
qed

lemma newBlockAfterLoop_rows:
  assumes "newBlockAfterLoop e st = Inr st'"
  shows "principalRowsOf (calls st')
         = principalRowsOf (calls st) @ dbPrincipalStxTxBatchInserter st"
proof -
  from assms obtain s1 s2 where
    1: "forEachE (\<lambda>batch. exec (dbFails e) (UpdateTxBatch batch))
              (fst (flush (dbTxBatchInserter st)))
              (st\<lparr>dbTxBatchInserter := snd (flush (dbTxBatchInserter st))\<rparr>) = Inr s1"
    and 2: "forEachE (\<lambda>batch. exec (dbFails e) (InsertPrincipalStxTxsBatched batch))
              (fst (flush (dbPrincipalStxTxBatchInserter s1)))
              (s1\<lparr>dbPrincipalStxTxBatchInserter :=
                     snd (flush (dbPrincipalStxTxBatchInserter s1))\<rparr>) = Inr s2"
    and 3: "st' = s2\<lparr>logged := logged s2 @ [100]\<rparr>"
    unfolding newBlockAfterLoop_def bindE_Inr by auto
  from 1 have "addsRows (st\<lparr>dbTxBatchInserter := snd (flush (dbTxBatchInserter st))\<rparr>) s1 []"
    by (rule addsRows_forEachE_exec [rotated]) simp
  then have r1: "principalRowsOf (calls s1) @ dbPrincipalStxTxBatchInserter s1
                 = principalRowsOf (calls st) @ dbPrincipalStxTxBatchInserter st"
    by (simp add: addsRows_def)
  from forEachE_exec_calls [OF 2]
  have "calls s2 = calls s1
          @ map InsertPrincipalStxTxsBatched (fst (flush (dbPrincipalStxTxBatchInserter s1)))"
    by simp
  then have "principalRowsOf (calls s2)
             = principalRowsOf (calls s1) @ dbPrincipalStxTxBatchInserter s1"
    by (simp add: principalRowsOf_batches flush_def)
  with r1 3 show ?thesis by simp
qed

text \<open>
  When the transaction of the new-blocks phase commits, the rows its calls insert into
  \<open>principal_stx_txs\<close> are the rows of \<open>processStxEvents\<close> for every transaction of every
  record, in order: the accumulator neither drops, repeats nor reorders a row, when the
  chunks of the helper make up the buffer in order.
\<close>

lemma newBlockCallback_principal_rows:
  assumes "splitsInOrder (batchIteratePrincipal e) 1000"
    and "newBlockCallback e t p = Inr cs"
  shows "principalRowsOf cs
         = concat (map (recordPrincipalRows e) (readPreorgTsv e p (Some ''/new_block'')))"
proof -
  let ?evs = "readPreorgTsv e p (Some ''/new_block'')"
  from assms(2) obtain s1 s2 s3 s4 where
    1: "exec (dbFails e) (ToggleTableIndexes newBlockTables False) initialNewBlockState = Inr s1"
    and 2: "forEachE (newBlockStep e t) ?evs s1 = Inr s2"
    and 3: "newBlockAfterLoop e s2 = Inr s3"
    and 4: "exec (dbFails e) (ToggleTableIndexes newBlockTables True) s3 = Inr s4"
    and 5: "cs = calls s4"
    unfolding newBlockCallback_def phaseCallback_def by (elim bindE_InrE) simp
  from 1 have i: "principalRowsOf (calls s1) = []" "dbPrincipalStxTxBatchInserter s1 = []"
    by (auto simp: exec_Inr initialNewBlockState_def)
  have "addsRows s1 s2 (concat (map (recordPrincipalRows e) ?evs))"
    using 2 by (rule addsRows_forEachE [rotated]) (rule newBlockStep_addsRows [OF assms(1)])
  with i have "principalRowsOf (calls s2) @ dbPrincipalStxTxBatchInserter s2
               = concat (map (recordPrincipalRows e) ?evs)"
    by (simp add: addsRows_def)
  with newBlockAfterLoop_rows [OF 3]
  have "principalRowsOf (calls s3) = concat (map (recordPrincipalRows e) ?evs)" by simp
  moreover from 4 have "calls s4 = calls s3 @ [ToggleTableIndexes newBlockTables True]"
    by (simp add: exec_Inr)
  ultimately show ?thesis using 5 by simp
qed


subsection \<open>The loop body of a transaction returns\<close>

lemma exec_ok: "\<forall>c. \<not> fails c \<Longrightarrow> \<exists>st'. exec fails c st = Inr st'"
  by (simp add: exec_def)

lemma forEachE_exec_ok:
  "\<forall>c. \<not> fails c \<Longrightarrow> \<exists>st'. forEachE (\<lambda>x. exec fails (g x)) xs st = Inr st'"
  by (induction xs arbitrary: st) (simp_all add: exec_def)

lemma bindE_ok: "\<exists>x. m = Inr x \<Longrightarrow> (\<And>x. \<exists>y. f x = Inr y) \<Longrightarrow> \<exists>y. bindE m f = Inr y"
  by (auto simp: bindE_def)

lemma pushTx_ok: "\<forall>c. \<not> dbFails e c \<Longrightarrow> \<exists>st'. pushTx e entries st = Inr st'"
  by (simp add: pushTx_def forEachE_exec_ok split: prod.splits)

lemma pushPrincipalStxTxs_ok:
  "\<forall>c. \<not> dbFails e c \<Longrightarrow> \<exists>st'. pushPrincipalStxTxs e entries st = Inr st'"
  by (simp add: pushPrincipalStxTxs_def forEachE_exec_ok split: prod.splits)

lemma txEntryStep_ok:
  assumes "\<forall>c. \<not> dbFails e c"
  shows "\<exists>st'. txEntryStep e entry st = Inr st'"
  unfolding txEntryStep_def
  by (intro bindE_ok pushTx_ok pushPrincipalStxTxs_ok exec_ok forEachE_exec_ok assms)

lemma sample_rows:
  "snd (processStxEvents (sampleEntry txid))
   = [principalRow (sampleTx txid) ''SP1'', principalRow (sampleTx txid) ''SP2'']"
  by (simp add: processStxEvents_def processStxEvents_push_def txPrincipals_def
      addEventPrincipals_def setAdd_def truthy_def contraintKey_def sampleEntry_def
      sampleTx_def principalRow_def)

text \<open>
  C4. In the new-blocks phase, the loop body of a processed transaction adds to the
  principal accumulator (to what it has inserted and what it buffers) exactly the rows of
  \<open>processStxEvents\<close> for the transaction, once and in order, and it returns when the
  storage rejects no call; when the transaction of the phase commits, the rows inserted
  into \<open>principal_stx_txs\<close> are these rows for every transaction of every record. The
  rows of a transaction have pairwise distinct (principal, tx id, index block hash,
  microblock hash) tuples, and these tuples are exactly the candidate principals of the
  transaction (sender address, token-transfer recipient, contract-call contract id,
  smart-contract id, every STX-event sender and recipient; a candidate that is absent or
  the empty string is none), each with the tx id and the two hashes of the transaction:
  one row per distinct tuple. In particular an address that is the sender and the
  recipient of an STX event has exactly one row. The hypothesis on the helper of the
  accumulator, which the import gives batches of more than 1000 rows to split: its chunks
  make up the buffer in order.
\<close>

theorem processStxEvents_one_row_per_tuple:
  assumes "splitsInOrder (batchIteratePrincipal e) 1000"
  shows "(\<forall>st'. txEntryStep e entry st = Inr st' \<longrightarrow>
            principalRowsOf (calls st') @ dbPrincipalStxTxBatchInserter st'
            = principalRowsOf (calls st) @ dbPrincipalStxTxBatchInserter st
              @ snd (processStxEvents entry))
       \<and> ((\<forall>c. \<not> dbFails e c) \<longrightarrow> (\<exists>st'. txEntryStep e entry st = Inr st'))
       \<and> (\<forall>t p cs. newBlockCallback e t p = Inr cs \<longrightarrow>
            principalRowsOf cs
            = concat (map (\<lambda>event. case parseNewBlockMessage e (payload event) of
                                      None \<Rightarrow> []
                                    | Some dbData \<Rightarrow>
                                        concat (map (\<lambda>entry. snd (processStxEvents entry))
                                                  (txs dbData)))
                        (readPreorgTsv e p (Some ''/new_block''))))
       \<and> distinct (map rowKey (snd (processStxEvents entry)))
       \<and> set (map rowKey (snd (processStxEvents entry)))
           = (\<lambda>p. (p, tx_id (tx entry), index_block_hash (tx entry), microblock_hash (tx entry)))
               ` {p. p \<noteq> [] \<and> Some p \<in> set (candidatePrincipals entry)}
       \<and> (\<forall>a. length (filter (\<lambda>r. principal r = a) (snd (processStxEvents entry)))
                = (if a \<noteq> [] \<and> Some a \<in> set (candidatePrincipals entry) then 1 else 0))
       \<and> (a \<noteq> [] \<and> sender_address (tx entry) = a
            \<and> (\<exists>ev \<in> set (stxEvents entry). recipient ev = Some a)
          \<longrightarrow> length (filter (\<lambda>r. principal r = a) (snd (processStxEvents entry))) = 1)"
proof -
  let ?t = "tx entry" and ?ps = "txPrincipals entry"
  have h: "\<forall>st'. txEntryStep e entry st = Inr st' \<longrightarrow>
            principalRowsOf (calls st') @ dbPrincipalStxTxBatchInserter st'
            = principalRowsOf (calls st) @ dbPrincipalStxTxBatchInserter st
              @ snd (processStxEvents entry)"
    using txEntryStep_addsRows [OF assms, of entry st] by (simp add: addsRows_def)
  have k: "(\<forall>c. \<not> dbFails e c) \<longrightarrow> (\<exists>st'. txEntryStep e entry st = Inr st')"
    using txEntryStep_ok [of e entry st] by blast
  have rp: "recordPrincipalRows e
            = (\<lambda>event. case parseNewBlockMessage e (payload event) of
                          None \<Rightarrow> []
                        | Some dbData \<Rightarrow>
                            concat (map (\<lambda>entry. snd (processStxEvents entry)) (txs dbData)))"
    by (rule ext) (simp add: recordPrincipalRows_def)
  have n: "\<forall>t p cs. newBlockCallback e t p = Inr cs \<longrightarrow>
            principalRowsOf cs
            = concat (map (\<lambda>event. case parseNewBlockMessage e (payload event) of
                                      None \<Rightarrow> []
                                    | Some dbData \<Rightarrow>
                                        concat (map (\<lambda>entry. snd (processStxEvents entry))
                                                  (txs dbData)))
                        (readPreorgTsv e p (Some ''/new_block'')))"
    using newBlockCallback_principal_rows [OF assms] unfolding rp by blast
  have rows: "snd (processStxEvents entry) = map (principalRow ?t) ?ps"
    by (simp add: processStxEvents_eq)
  have keys: "map rowKey (map (principalRow ?t) ?ps)
              = map (\<lambda>p. (p, tx_id ?t, index_block_hash ?t, microblock_hash ?t)) ?ps"
    by (simp add: rowKey_principalRow)
  have "inj (\<lambda>p. (p, tx_id ?t, index_block_hash ?t, microblock_hash ?t))"
    by (rule injI) simp
  then have d: "distinct (map rowKey (snd (processStxEvents entry)))"
    unfolding rows keys using txPrincipals_distinct [of entry]
    by (simp add: distinct_map inj_on_def)
  have s: "set (map rowKey (snd (processStxEvents entry)))
       = (\<lambda>p. (p, tx_id ?t, index_block_hash ?t, microblock_hash ?t))
           ` {p. p \<noteq> [] \<and> Some p \<in> set (candidatePrincipals entry)}"
    unfolding rows keys by (simp add: txPrincipals_set)
  have c: "length (filter (\<lambda>r. principal r = b) (snd (processStxEvents entry)))
            = (if b \<noteq> [] \<and> Some b \<in> set (candidatePrincipals entry) then 1 else 0)" for b
    unfolding rows using count_principal_rows [OF txPrincipals_distinct, of b ?t entry]
    by (simp add: txPrincipals_set)
  have "Some a \<in> set (candidatePrincipals entry)" if "sender_address ?t = a"
    using that by (simp add: candidatePrincipals_def)
  with c [of a] have p: "a \<noteq> [] \<and> sender_address ?t = a
        \<and> (\<exists>ev \<in> set (stxEvents entry). recipient ev = Some a)
      \<longrightarrow> length (filter (\<lambda>r. principal r = a) (snd (processStxEvents entry))) = 1"
    by simp
  from c have c': "\<forall>a. length (filter (\<lambda>r. principal r = a) (snd (processStxEvents entry)))
                = (if a \<noteq> [] \<and> Some a \<in> set (candidatePrincipals entry) then 1 else 0)" ..
  show ?thesis
    apply (rule conjI, rule h)
    apply (rule conjI, rule k)
    apply (rule conjI, rule n)
    apply (rule conjI, rule d)
    apply (rule conjI, rule s)
    apply (rule conjI, rule c')
    apply (rule p)
    done
qed

text \<open>The sample transaction in a new accumulator, with the sample helper and a storage
  that rejects nothing: the loop body returns, the accumulator holds the two rows of the
  transaction, and \<open>SP1\<close>, the sender and the recipient of the STX event, has one row.\<close>

theorem processStxEvents_one_row_per_tuple_witness:
  "(\<exists>st'. txEntryStep sampleEnv (sampleEntry ''0x01'') initialNewBlockState = Inr st'
         \<and> principalRowsOf (calls st') @ dbPrincipalStxTxBatchInserter st'
           = [principalRow (sampleTx ''0x01'') ''SP1'', principalRow (sampleTx ''0x01'') ''SP2''])
   \<and> sender_address (tx (sampleEntry ''0x01'')) = ''SP1''
   \<and> (\<exists>ev \<in> set (stxEvents (sampleEntry ''0x01'')). recipient ev = Some ''SP1'')
   \<and> length (filter (\<lambda>r. principal r = ''SP1'') (snd (processStxEvents (sampleEntry ''0x01'')))) = 1"
proof -
  have hs: "splitsInOrder (batchIteratePrincipal sampleEnv) 1000"
    using chunksWithRest_splitsInOrder [of 1000] by (simp add: sampleEnv_def)
  have ok: "\<forall>c. \<not> dbFails sampleEnv c" by (simp add: sampleEnv_def)
  have a: "sender_address (tx (sampleEntry ''0x01'')) = ''SP1''"
    by (simp add: sampleEntry_def sampleTx_def)
  have b: "\<exists>ev \<in> set (stxEvents (sampleEntry ''0x01'')). recipient ev = Some ''SP1''"
    by (simp add: sampleEntry_def)
  have c: "''SP1'' \<noteq> []" by simp
  have i: "principalRowsOf (calls initialNewBlockState) = []"
    "dbPrincipalStxTxBatchInserter initialNewBlockState = []"
    by (simp_all add: initialNewBlockState_def)
  note th = processStxEvents_one_row_per_tuple
    [OF hs, of "sampleEntry ''0x01''" initialNewBlockState "''SP1''"]
  from th [THEN conjunct2, THEN conjunct1, THEN mp, OF ok] obtain st' where
    1: "txEntryStep sampleEnv (sampleEntry ''0x01'') initialNewBlockState = Inr st'" ..
  from th [THEN conjunct1, rule_format, OF 1]
  have 2: "principalRowsOf (calls st') @ dbPrincipalStxTxBatchInserter st'
      = [principalRow (sampleTx ''0x01'') ''SP1'', principalRow (sampleTx ''0x01'') ''SP2'']"
    by (simp only: i sample_rows append_Nil)
  from th [THEN conjunct2, THEN conjunct2, THEN conjunct2, THEN conjunct2, THEN conjunct2,
    THEN conjunct2, THEN mp, OF conjI [OF c conjI [OF a b]]]
  have 3: "length (filter (\<lambda>r. principal r = ''SP1'')
             (snd (processStxEvents (sampleEntry ''0x01'')))) = 1" .
  from 1 2 have 12: "\<exists>st'. txEntryStep sampleEnv (sampleEntry ''0x01'') initialNewBlockState = Inr st'
         \<and> principalRowsOf (calls st') @ dbPrincipalStxTxBatchInserter st'
           = [principalRow (sampleTx ''0x01'') ''SP1'', principalRow (sampleTx ''0x01'') ''SP2'']"
    by (intro exI [of _ st'] conjI)
  from 12 a b 3 show ?thesis by (intro conjI)
qed

subsection \<open>The progress log\<close>

lemma percent_values:
  "percent 26 128 = 325 / 16" "percent 52 128 = 325 / 8" "percent 77 128 = 1925 / 32"
  "percent 103 128 = 2575 / 32" "percent 128 128 = 100" "percent (Suc 0) (Suc 0) = 100"
  "percent 35 100 = 35"
  by code_simp+

lemma floor_values:
  "\<lfloor>325 / 16 :: rat\<rfloor> = 20" "\<lfloor>325 / 8 :: rat\<rfloor> = 40" "\<lfloor>1925 / 32 :: rat\<rfloor> = 60"
  "\<lfloor>2575 / 32 :: rat\<rfloor> = 80" "\<lfloor>8162774324609023 / 281474976710656 :: rat\<rfloor> = 28"
  "\<lfloor>7740561859543041 / 140737488355328 :: rat\<rfloor> = 55"
  by code_simp+

lemma sample_progressLog:
  "progressLog 100 [35] = [35]" "progressLog (Suc 0) [Suc 0] = [100]"
  by (simp_all add: progressLog_def statusUpdate_def percent_values)

lemma sample_burn_block_loop:
  "forEachE (burnBlockStep sampleEnv sampleEntityData) [sampleRecord] initialLoopState
   = Inr (reportProgress 1 1 initialLoopState)"
  by (simp add: burnBlockStep_def sampleEnv_def sampleRecord_def sampleBurnBlock_def
      sampleEntityData_def)

lemma sample_new_block_after_loop:
  "newBlockAfterLoop sampleEnv initialNewBlockState
   = Inr (initialNewBlockState\<lparr>logged := [100]\<rparr>)"
  by (simp add: newBlockAfterLoop_def flush_def initialNewBlockState_def)

text \<open>
  C7 (amended). For every phase loop over a log of \<open>n > 0\<close> lines and records whose
  \<open>readLineCount\<close> never exceeds \<open>n\<close>. Nothing is logged before the first record. After
  each record an entry is logged exactly when the percentage read, the double
  \<open>(readLineCount / n) * 100\<close>, is more than 20 above the last logged percentage (0 at the
  start), and the entry is the floor of that percentage. So the logged percentages lie
  between 20 and 100, each is at least 20 above the one before, no two fall into the same
  20-point band (no boundary is logged twice by the loop), and the loop logs at most 4
  entries: there is none left for the fifth boundary. The log of each of the four phase
  loops, when the loop ends, is this log for the \<open>readLineCount\<close> values of its records,
  and the new-blocks phase has logged one more entry, 100, when its two flushes are done.
\<close>

theorem progressLog_entries:
  assumes "0 < n" and "\<forall>r \<in> set rs. r \<le> n"
  shows "progressLog n [] = []
       \<and> (\<forall>r. progressLog n (rs @ [r]) =
                 (if of_int (lastLogged (progressLog n rs) + 20) < percent r n
                  then progressLog n rs @ [\<lfloor>percent r n\<rfloor>] else progressLog n rs))
       \<and> length (progressLog n rs) \<le> 4
       \<and> (\<forall>p \<in> set (progressLog n rs). 20 \<le> p \<and> p \<le> 100)
       \<and> sorted_wrt (\<lambda>a b. a + 20 \<le> b) (progressLog n rs)
       \<and> distinct (map (\<lambda>p. p div 20) (progressLog n rs))
       \<and> (\<forall>e t evs. tsvLineCount t = n \<and> map readLineCount evs = rs \<longrightarrow>
            (\<forall>st. forEachE (burnBlockStep e t) evs initialLoopState = Inr st
                    \<longrightarrow> logged st = progressLog n rs)
          \<and> (\<forall>st. forEachE (attachmentStep e t) evs initialLoopState = Inr st
                    \<longrightarrow> logged st = progressLog n rs)
          \<and> (\<forall>st. forEachE (rawEventStep e t) evs initialLoopState = Inr st
                    \<longrightarrow> logged st = progressLog n rs)
          \<and> (\<forall>st st'. forEachE (newBlockStep e t) evs initialNewBlockState = Inr st
                        \<and> newBlockAfterLoop e st = Inr st'
                    \<longrightarrow> logged st = progressLog n rs \<and> logged st' = progressLog n rs @ [100]))"
proof -
  have 1: "progressLog n [] = []" by (rule progressLog_Nil)
  have 2: "\<forall>r. progressLog n (rs @ [r]) =
                 (if of_int (lastLogged (progressLog n rs) + 20) < percent r n
                  then progressLog n rs @ [\<lfloor>percent r n\<rfloor>] else progressLog n rs)"
    by (rule allI) (rule progressLog_snoc)
  note b = progressLog_bounds [OF assms]
  have 7: "\<forall>e t evs. tsvLineCount t = n \<and> map readLineCount evs = rs \<longrightarrow>
            (\<forall>st. forEachE (burnBlockStep e t) evs initialLoopState = Inr st
                    \<longrightarrow> logged st = progressLog n rs)
          \<and> (\<forall>st. forEachE (attachmentStep e t) evs initialLoopState = Inr st
                    \<longrightarrow> logged st = progressLog n rs)
          \<and> (\<forall>st. forEachE (rawEventStep e t) evs initialLoopState = Inr st
                    \<longrightarrow> logged st = progressLog n rs)
          \<and> (\<forall>st st'. forEachE (newBlockStep e t) evs initialNewBlockState = Inr st
                        \<and> newBlockAfterLoop e st = Inr st'
                    \<longrightarrow> logged st = progressLog n rs \<and> logged st' = progressLog n rs @ [100])"
  proof (intro allI impI, elim conjE)
    fix e :: env and t :: TsvEntityData and evs :: "preorgEvent list"
    assume t: "tsvLineCount t = n" and r: "map readLineCount evs = rs"
    have a: "\<forall>st. forEachE (burnBlockStep e t) evs initialLoopState = Inr st
                    \<longrightarrow> logged st = progressLog n rs"
      using phase_loops_log_progress(1) [of e t evs] unfolding t r by blast
    have b: "\<forall>st. forEachE (attachmentStep e t) evs initialLoopState = Inr st
                    \<longrightarrow> logged st = progressLog n rs"
      using phase_loops_log_progress(2) [of e t evs] unfolding t r by blast
    have c: "\<forall>st. forEachE (rawEventStep e t) evs initialLoopState = Inr st
                    \<longrightarrow> logged st = progressLog n rs"
      using phase_loops_log_progress(3) [of e t evs] unfolding t r by blast
    have d: "\<forall>st st'. forEachE (newBlockStep e t) evs initialNewBlockState = Inr st
                        \<and> newBlockAfterLoop e st = Inr st'
                    \<longrightarrow> logged st = progressLog n rs \<and> logged st' = progressLog n rs @ [100]"
      using phase_loops_log_progress(4) [of e t evs] new_block_phase_logs_progress [of e t evs]
      unfolding t r newBlockProgressLog_def by blast
    from a b c d
    show "(\<forall>st. forEachE (burnBlockStep e t) evs initialLoopState = Inr st
                    \<longrightarrow> logged st = progressLog n rs)
          \<and> (\<forall>st. forEachE (attachmentStep e t) evs initialLoopState = Inr st
                    \<longrightarrow> logged st = progressLog n rs)
          \<and> (\<forall>st. forEachE (rawEventStep e t) evs initialLoopState = Inr st
                    \<longrightarrow> logged st = progressLog n rs)
          \<and> (\<forall>st st'. forEachE (newBlockStep e t) evs initialNewBlockState = Inr st
                        \<and> newBlockAfterLoop e st = Inr st'
                    \<longrightarrow> logged st = progressLog n rs \<and> logged st' = progressLog n rs @ [100])"
      by (intro conjI)
  qed
  show ?thesis
    apply (rule conjI, rule 1)
    apply (rule conjI, rule 2)
    apply (rule conjI, rule b(1))
    apply (rule conjI, rule b(2))
    apply (rule conjI, rule b(3))
    apply (rule conjI, rule b(4))
    apply (rule 7)
    done
qed

text \<open>
  A log of 100 lines and records that end at lines 35 and 55: 35 is logged, and then 55,
  because the double \<open>(55 / 100) * 100\<close> is \<open>55.00000000000001\<close>, more than 35 + 20. The
  sample record of a log of one line: the burn-blocks loop logs 100. The new-blocks phase
  without a record logs its final 100.
\<close>

theorem progressLog_entries_witness:
  "(0::nat) < 100 \<and> (35::nat) \<le> 100
   \<and> progressLog 100 [35, 55] = [35, 55]
   \<and> length (progressLog 100 [35]) \<le> 4
   \<and> (\<exists>st. forEachE (burnBlockStep sampleEnv sampleEntityData) [sampleRecord] initialLoopState
             = Inr st \<and> logged st = [100])
   \<and> (\<exists>st st'. forEachE (newBlockStep sampleEnv sampleEntityData) [] initialNewBlockState = Inr st
             \<and> newBlockAfterLoop sampleEnv st = Inr st' \<and> logged st' = [100])"
proof -
  have h: "(0::nat) < 100" and b: "\<forall>r \<in> set [35::nat]. r \<le> 100" by simp_all
  note th = progressLog_entries [OF h b]
  from th have "progressLog 100 ([35] @ [55]) =
      (if of_int (lastLogged (progressLog 100 [35]) + 20) < percent 55 100
       then progressLog 100 [35] @ [\<lfloor>percent 55 100\<rfloor>] else progressLog 100 [35])"
    by blast
  then have 1: "progressLog 100 [35, 55] = [35, 55]"
    by (simp add: sample_progressLog lastLogged_def percent_rounded floor_values)
  from th have 2: "length (progressLog 100 [35]) \<le> 4" by blast
  have h1: "(0::nat) < 1" and b1: "\<forall>r \<in> set [1::nat]. r \<le> 1"
    and b0: "\<forall>r \<in> set ([]::nat list). r \<le> 1" by simp_all
  have t1: "tsvLineCount sampleEntityData = 1 \<and> map readLineCount [sampleRecord] = [1]"
    by (simp add: sampleEntityData_def sampleRecord_def)
  have t0: "tsvLineCount sampleEntityData = 1 \<and> map readLineCount [] = []"
    by (simp add: sampleEntityData_def)
  note loops1 = progressLog_entries [OF h1 b1, THEN conjunct2, THEN conjunct2, THEN conjunct2,
    THEN conjunct2, THEN conjunct2, THEN conjunct2, rule_format, OF t1]
  from loops1 [THEN conjunct1, rule_format, OF sample_burn_block_loop]
  have "logged (reportProgress 1 1 initialLoopState) = [100]"
    by (simp add: sample_progressLog)
  with sample_burn_block_loop
  have 3: "\<exists>st. forEachE (burnBlockStep sampleEnv sampleEntityData) [sampleRecord] initialLoopState
             = Inr st \<and> logged st = [100]" by blast
  have l0: "forEachE (newBlockStep sampleEnv sampleEntityData) [] initialNewBlockState
            = Inr initialNewBlockState" by simp
  note loops0 = progressLog_entries [OF h1 b0, THEN conjunct2, THEN conjunct2, THEN conjunct2,
    THEN conjunct2, THEN conjunct2, THEN conjunct2, rule_format, OF t0]
  from loops0 [THEN conjunct2, THEN conjunct2, THEN conjunct2, rule_format,
    OF conjI [OF l0 sample_new_block_after_loop]]
  have "logged (initialNewBlockState\<lparr>logged := [100]\<rparr>) = [100]"
    by (simp add: progressLog_Nil)
  with l0 sample_new_block_after_loop
  have 4: "\<exists>st st'. forEachE (newBlockStep sampleEnv sampleEntityData) [] initialNewBlockState = Inr st
             \<and> newBlockAfterLoop sampleEnv st = Inr st' \<and> logged st' = [100]"
    by blast
  have 0: "(35::nat) \<le> 100" by simp
  from h 0 1 2 3 4 show ?thesis by blast
qed

text \<open>
  C7 as stated fails. With 128 lines and five records that end at lines 26, 52, 77, 103
  and 128, each record crosses one of the five boundaries, and the loop logs 20, 40, 60 and
  80, never 100: the test is a strict comparison with the last logged percentage plus 20,
  and no percentage exceeds 100. With a log of one line in one record the loop logs 100,
  and the new-blocks phase adds its unconditional 100% line: 100 is logged twice.
\<close>

theorem progressLog_boundaries_counterexample:
  "progressLog 128 [26, 52, 77, 103, 128] = [20, 40, 60, 80]
   \<and> 100 \<notin> set (progressLog 128 [26, 52, 77, 103, 128])
   \<and> newBlockProgressLog 1 [1] = [100, 100]"
  by (simp add: newBlockProgressLog_def progressLog_def statusUpdate_def percent_values
      floor_values)

end
